theory Spec2Isabelle
  imports Complex_Main "HOL-Library.Word"
begin

unbundle bit_operations_syntax

section \<open>Numeric conventions\<close>

text \<open>
  The detector computes in \<^verbatim>\<open>double\<close>; the samples are \<^verbatim>\<open>float\<close> values widened to
  \<^verbatim>\<open>double\<close> without loss. The samples, the thresholds and everything computed from them
  are read as real numbers, and the arithmetic on them as the exact one: rounding, overflow and
  underflow are not modelled, and a sample or a threshold is never an infinity or a NaN. The
  initial \<^verbatim>\<open>minValue = infinity()\<close> of the fallback search is the value \<open>None\<close> of a
  \<open>real option\<close>. \<^verbatim>\<open>std::size_t\<close> lags and lengths are natural numbers: they are
  bounded by the length of a vector, so no operation on them wraps.
\<close>

type_synonym double = real

text \<open>
  The sample rate is an argument of the constructor and may be any \<^verbatim>\<open>double\<close>, also an
  infinity or a NaN; so may the frequency computed from it. Such a value is an \<open>xdouble\<close>.
\<close>

datatype xdouble = Finite double | PosInf | NegInf | NaN

text \<open>\<^verbatim>\<open>std::isfinite\<close>.\<close>

definition isfinite :: "xdouble \<Rightarrow> bool" where
  "isfinite x = (case x of Finite r \<Rightarrow> True | PosInf \<Rightarrow> False | NegInf \<Rightarrow> False | NaN \<Rightarrow> False)"

text \<open>The comparison \<^verbatim>\<open>x <= 0.0\<close>; every comparison with a NaN is false.\<close>

definition le_zero :: "xdouble \<Rightarrow> bool" where
  "le_zero x = (case x of Finite r \<Rightarrow> r \<le> 0 | PosInf \<Rightarrow> False | NegInf \<Rightarrow> True | NaN \<Rightarrow> False)"

text \<open>
  The quotient \<^verbatim>\<open>x / t\<close> for a finite divisor \<open>t\<close> (a zero divisor is the positive
  zero). The quotient of two finite values is the exact one: it neither overflows nor
  underflows.
\<close>

definition divide_by :: "xdouble \<Rightarrow> double \<Rightarrow> xdouble" where
  "divide_by x t =
     (case x of
        Finite r \<Rightarrow>
          if t \<noteq> 0 then Finite (r / t)
          else if r = 0 then NaN else if 0 < r then PosInf else NegInf
      | PosInf \<Rightarrow> if 0 \<le> t then PosInf else NegInf
      | NegInf \<Rightarrow> if 0 \<le> t then NegInf else PosInf
      | NaN \<Rightarrow> NaN)"

text \<open>The real number a finite \<^verbatim>\<open>double\<close> stands for.\<close>

definition finite_value :: "xdouble \<Rightarrow> double" where
  "finite_value x = (case x of Finite r \<Rightarrow> r | PosInf \<Rightarrow> 0 | NegInf \<Rightarrow> 0 | NaN \<Rightarrow> 0)"

text \<open>\<^verbatim>\<open>std::round\<close> and \<^verbatim>\<open>std::lround\<close>: to the nearest integer, halves away from zero.\<close>

definition c_lround :: "double \<Rightarrow> int" where
  "c_lround x = (if 0 \<le> x then \<lfloor>x + 1 / 2\<rfloor> else - \<lfloor>- x + 1 / 2\<rfloor>)"

definition c_round :: "double \<Rightarrow> double" where
  "c_round x = of_int (c_lround x)"

text \<open>Division and remainder of C++ \<^verbatim>\<open>int\<close>: the quotient is truncated towards zero.\<close>

definition int_div :: "int \<Rightarrow> int \<Rightarrow> int" where
  "int_div a b = sgn a * sgn b * (\<bar>a\<bar> div \<bar>b\<bar>)"

definition int_rem :: "int \<Rightarrow> int \<Rightarrow> int" where
  "int_rem a b = a - b * int_div a b"

text \<open>\<^verbatim>\<open>operator<<\<close> of an \<^verbatim>\<open>int\<close> into a stream: decimal digits, a minus sign first.\<close>

definition digit_char :: "nat \<Rightarrow> char" where
  "digit_char n = ''0123456789'' ! n"

function string_of_nat :: "nat \<Rightarrow> string" where
  "string_of_nat n =
     (if n < 10 then [digit_char n] else string_of_nat (n div 10) @ [digit_char (n mod 10)])"
  by pat_completeness auto
termination
  by (relation "measure id") auto

declare string_of_nat.simps [simp del]

definition string_of_int :: "int \<Rightarrow> string" where
  "string_of_int i =
     (if i < 0 then CHR ''-'' # string_of_nat (nat (- i)) else string_of_nat (nat i))"

section \<open>The YIN pitch detector\<close>

record PitchResult =
  isValid :: bool
  frequency :: double
  midi :: double
  cents :: double
  noteName :: string
  probability :: double

record YinPitchDetector =
  m_sampleRate :: xdouble
  m_bufferSize :: nat
  m_maxLag :: nat
  m_threshold :: double
  m_difference :: "double list"
  m_cumulative :: "double list"
  m_lastResult :: PitchResult

text \<open>A value-initialised \<^verbatim>\<open>PitchResult\<close> (the member initialisers of the struct).\<close>

definition empty_result :: PitchResult where
  "empty_result =
     \<lparr>isValid = False, frequency = 0, midi = 0, cents = 0, noteName = [], probability = 0\<rparr>"

definition MIN_THRESHOLD :: double where
  "MIN_THRESHOLD = 1 / 1000"

definition MAX_THRESHOLD :: double where
  "MAX_THRESHOLD = 999 / 1000"

definition NOTE_NAMES :: "string list" where
  "NOTE_NAMES =
     [''C'', ''C#'', ''D'', ''D#'', ''E'', ''F'', ''F#'', ''G'', ''G#'', ''A'', ''A#'', ''B'']"

text \<open>The file-local \<^verbatim>\<open>clamp\<close> of src/native/cpp: \<^verbatim>\<open>std::min(std::max(value, min), max)\<close>.\<close>

definition cpp_clamp :: "double \<Rightarrow> double \<Rightarrow> double \<Rightarrow> double" where
  "cpp_clamp v lo hi = min (max v lo) hi"

text \<open>\<^verbatim>\<open>std::clamp\<close>, used by src/src/native/dsp.\<close>

definition std_clamp :: "double \<Rightarrow> double \<Rightarrow> double \<Rightarrow> double" where
  "std_clamp v lo hi = (if v < lo then lo else if hi < v then hi else v)"

text \<open>The constructors. The two copies differ in the initial fill of \<open>m_cumulative\<close>.\<close>

definition cpp_YinPitchDetector :: "xdouble \<Rightarrow> nat \<Rightarrow> double \<Rightarrow> YinPitchDetector" where
  "cpp_YinPitchDetector sampleRate bufferSize threshold =
     \<lparr>m_sampleRate = sampleRate, m_bufferSize = bufferSize, m_maxLag = bufferSize div 2,
      m_threshold = cpp_clamp threshold MIN_THRESHOLD MAX_THRESHOLD,
      m_difference = replicate (bufferSize div 2 + 1) 0,
      m_cumulative = replicate (bufferSize div 2 + 1) 0,
      m_lastResult = empty_result\<rparr>"

definition dsp_YinPitchDetector :: "xdouble \<Rightarrow> nat \<Rightarrow> double \<Rightarrow> YinPitchDetector" where
  "dsp_YinPitchDetector sampleRate bufferSize threshold =
     \<lparr>m_sampleRate = sampleRate, m_bufferSize = bufferSize, m_maxLag = bufferSize div 2,
      m_threshold = std_clamp threshold MIN_THRESHOLD MAX_THRESHOLD,
      m_difference = replicate (bufferSize div 2 + 1) 0,
      m_cumulative = replicate (bufferSize div 2 + 1) 1,
      m_lastResult = empty_result\<rparr>"

definition cpp_setThreshold :: "YinPitchDetector \<Rightarrow> double \<Rightarrow> YinPitchDetector" where
  "cpp_setThreshold d threshold = d\<lparr>m_threshold := cpp_clamp threshold MIN_THRESHOLD MAX_THRESHOLD\<rparr>"

definition dsp_setThreshold :: "YinPitchDetector \<Rightarrow> double \<Rightarrow> YinPitchDetector" where
  "dsp_setThreshold d threshold = d\<lparr>m_threshold := std_clamp threshold MIN_THRESHOLD MAX_THRESHOLD\<rparr>"

subsection \<open>Difference function and cumulative mean normalised difference\<close>

text \<open>
  \<^verbatim>\<open>computeDifference\<close> and \<^verbatim>\<open>computeCumulativeMeanNormalized\<close> are the same text in
  both copies (the dsp copy drops one pair of parentheses around the product, which
  \<^verbatim>\<open>*\<close> and \<^verbatim>\<open>/\<close> associate the same way). The inner loop over \<open>i\<close>, the outer loop
  over \<open>tau\<close>:
\<close>

function difference_sum :: "double list \<Rightarrow> nat \<Rightarrow> nat \<Rightarrow> nat \<Rightarrow> double \<Rightarrow> double" where
  "difference_sum samples bufferSize tau i sumv =
     (if i < bufferSize - tau
      then difference_sum samples bufferSize tau (i + 1)
             (sumv + (samples ! i - samples ! (i + tau)) * (samples ! i - samples ! (i + tau)))
      else sumv)"
  by pat_completeness auto
termination
  by (relation "measure (\<lambda>(samples, bufferSize, tau, i, sumv). bufferSize - tau - i)") auto

declare difference_sum.simps [simp del]

function difference_loop ::
  "double list \<Rightarrow> nat \<Rightarrow> nat \<Rightarrow> nat \<Rightarrow> double list \<Rightarrow> double list" where
  "difference_loop samples bufferSize maxLag tau diff =
     (if tau \<le> maxLag
      then difference_loop samples bufferSize maxLag (tau + 1)
             (diff[tau := difference_sum samples bufferSize tau 0 0])
      else diff)"
  by pat_completeness auto
termination
  by (relation "measure (\<lambda>(samples, bufferSize, maxLag, tau, diff). maxLag + 1 - tau)") auto

declare difference_loop.simps [simp del]

definition computeDifference :: "YinPitchDetector \<Rightarrow> double list \<Rightarrow> YinPitchDetector" where
  "computeDifference d samples =
     (let filled = replicate (length (m_difference d)) 0;
          looped = difference_loop samples (m_bufferSize d) (m_maxLag d) 1 filled
      in d\<lparr>m_difference := looped[0 := 0]\<rparr>)"

function cumulative_loop ::
  "double list \<Rightarrow> nat \<Rightarrow> nat \<Rightarrow> double \<Rightarrow> double list \<Rightarrow> double list" where
  "cumulative_loop diff maxLag tau runningSum cum =
     (if tau \<le> maxLag
      then (let runningSum' = runningSum + diff ! tau
            in cumulative_loop diff maxLag (tau + 1) runningSum'
                 (cum[tau := (if runningSum' = 0 then 1
                              else (diff ! tau * real tau) / runningSum')]))
      else cum)"
  by pat_completeness auto
termination
  by (relation "measure (\<lambda>(diff, maxLag, tau, runningSum, cum). maxLag + 1 - tau)") auto

declare cumulative_loop.simps [simp del]

definition computeCumulativeMeanNormalized :: "YinPitchDetector \<Rightarrow> YinPitchDetector" where
  "computeCumulativeMeanNormalized d =
     d\<lparr>m_cumulative :=
         cumulative_loop (m_difference d) (m_maxLag d) 1 0 ((m_cumulative d)[0 := 1])\<rparr>"

subsection \<open>Absolute threshold search\<close>

text \<open>The inner \<^verbatim>\<open>while\<close> that walks down to the local minimum.\<close>

function descend :: "double list \<Rightarrow> nat \<Rightarrow> nat" where
  "descend cum tau =
     (if tau + 1 < length cum \<and> cum ! (tau + 1) < cum ! tau
      then descend cum (tau + 1) else tau)"
  by pat_completeness auto
termination
  by (relation "measure (\<lambda>(cum, tau). length cum - tau)") auto

declare descend.simps [simp del]

text \<open>The first \<^verbatim>\<open>for\<close> loop; \<open>None\<close> when it runs to its end without returning.\<close>

function threshold_scan :: "double list \<Rightarrow> double \<Rightarrow> nat \<Rightarrow> (nat \<times> double) option" where
  "threshold_scan cum threshold tau =
     (if tau < length cum
      then (if cum ! tau < threshold
            then (let tau' = descend cum tau in Some (tau', 1 - cum ! tau'))
            else threshold_scan cum threshold (tau + 1))
      else None)"
  by pat_completeness auto
termination
  by (relation "measure (\<lambda>(cum, threshold, tau). length cum - tau)") auto

declare threshold_scan.simps [simp del]

text \<open>
  The second \<^verbatim>\<open>for\<close> loop. \<open>minValue\<close> is \<open>None\<close> while it still holds the initial
  infinity, below which every entry lies.
\<close>

function minimum_scan :: "double list \<Rightarrow> nat \<Rightarrow> double option \<Rightarrow> nat \<Rightarrow> double option \<times> nat" where
  "minimum_scan cum tau minValue candidate =
     (if tau < length cum
      then (if (case minValue of None \<Rightarrow> True | Some m \<Rightarrow> cum ! tau < m)
            then minimum_scan cum (tau + 1) (Some (cum ! tau)) tau
            else minimum_scan cum (tau + 1) minValue candidate)
      else (minValue, candidate))"
  by pat_completeness auto
termination
  by (relation "measure (\<lambda>(cum, tau, minValue, candidate). length cum - tau)") auto

declare minimum_scan.simps [simp del]

text \<open>The returned pair is the lag and the value left in the out-parameter \<open>probability\<close>.\<close>

definition absoluteThreshold :: "YinPitchDetector \<Rightarrow> nat \<times> double" where
  "absoluteThreshold d =
     (case threshold_scan (m_cumulative d) (m_threshold d) 2 of
        Some r \<Rightarrow> r
      | None \<Rightarrow>
          (case minimum_scan (m_cumulative d) 2 None 0 of
             (Some minValue, candidate) \<Rightarrow> (candidate, 1 - minValue)
           | (None, candidate) \<Rightarrow> (0, 0)))"

subsection \<open>Parabolic interpolation and note mapping: the two copies\<close>

definition cpp_parabolicInterpolation :: "nat \<Rightarrow> double list \<Rightarrow> double" where
  "cpp_parabolicInterpolation tau values =
     (if tau = 0 \<or> tau + 1 \<ge> length values then real tau
      else (let x1 = real tau;
                y0 = values ! (tau - 1); y1 = values ! tau; y2 = values ! (tau + 1);
                denominator = y0 - 2 * y1 + y2
            in if \<bar>denominator\<bar> < 1 / 10 ^ 12 then x1
               else x1 + (y0 - y2) / (2 * denominator)))"

text \<open>
  The dsp copy tests \<^verbatim>\<open>tau >= values.size() - 1\<close>; the vector it is given has
  \<open>m_maxLag + 1\<close> entries, so the subtraction does not wrap.
\<close>

definition dsp_parabolicInterpolation :: "nat \<Rightarrow> double list \<Rightarrow> double" where
  "dsp_parabolicInterpolation tau values =
     (if tau = 0 \<or> tau \<ge> length values - 1 then real tau
      else (let s0 = values ! (tau - 1); s1 = values ! tau; s2 = values ! (tau + 1);
                denominator = (s0 + s2) - 2 * s1
            in if denominator = 0 then real tau
               else real tau + 1 / 2 * (s0 - s2) / denominator))"

definition cpp_midiFromFrequency :: "double \<Rightarrow> double" where
  "cpp_midiFromFrequency f = 69 + 12 * log 2 (f / 440)"

definition dsp_midiFromFrequency :: "double \<Rightarrow> double" where
  "dsp_midiFromFrequency f = (if f \<le> 0 then 0 else 69 + 12 * log 2 (f / 440))"

definition cpp_noteNameFromMidi :: "double \<Rightarrow> string" where
  "cpp_noteNameFromMidi m =
     (let midiInt = c_lround m;
          noteIndex = int_rem (int_rem midiInt 12 + 12) 12
      in NOTE_NAMES ! nat (int_rem noteIndex 12))"

definition dsp_noteNameFromMidi :: "xdouble \<Rightarrow> string" where
  "dsp_noteNameFromMidi m =
     (if \<not> isfinite m then []
      else (let roundedMidi = c_lround (finite_value m);
                noteIndex = int_rem (int_rem roundedMidi 12 + 12) 12;
                octave = int_div roundedMidi 12 - 1
            in NOTE_NAMES ! nat noteIndex @ string_of_int octave))"

subsection \<open>processBuffer\<close>

text \<open>
  \<open>samples\<close> is \<open>None\<close> for a null pointer and otherwise the array the pointer refers to;
  \<open>numSamples\<close> is the count the caller passes beside it. The result is returned together
  with the detector, whose scratch buffers and \<open>m_lastResult\<close> the call overwrites. The
  fields of a \<^verbatim>\<open>PitchResult\<close> are real numbers: \<open>frequency\<close> is written only behind the
  \<^verbatim>\<open>isfinite\<close> test, and the other fields are computed from it.
\<close>

definition reject :: "YinPitchDetector \<Rightarrow> PitchResult \<times> YinPitchDetector" where
  "reject d = (empty_result, d\<lparr>m_lastResult := empty_result\<rparr>)"

definition cpp_processBuffer ::
  "YinPitchDetector \<Rightarrow> double list option \<Rightarrow> nat \<Rightarrow> PitchResult \<times> YinPitchDetector" where
  "cpp_processBuffer d samples numSamples =
     (case samples of
        None \<Rightarrow> reject d
      | Some xs \<Rightarrow>
          if numSamples < m_bufferSize d \<or> m_maxLag d < 2 \<or> le_zero (m_sampleRate d) then reject d
          else
            (let d1 = computeDifference d xs;
                 d2 = computeCumulativeMeanNormalized d1;
                 (tau, probability) = absoluteThreshold d2
             in if tau = 0 then reject d2
                else
                  (let refinedTau =
                         (if tau > 1 \<and> tau < m_maxLag d2
                          then cpp_parabolicInterpolation tau (m_cumulative d2)
                          else real tau)
                   in if refinedTau \<le> 0 then reject d2
                      else
                        (let frequency = divide_by (m_sampleRate d2) refinedTau
                         in if \<not> isfinite frequency \<or> le_zero frequency then reject d2
                            else
                              (let midi = cpp_midiFromFrequency (finite_value frequency);
                                   nearestMidi = c_round midi;
                                   cents = (midi - nearestMidi) * 100;
                                   result =
                                     \<lparr>isValid = probability > 0,
                                      frequency = finite_value frequency,
                                      midi = midi, cents = cents,
                                      noteName = cpp_noteNameFromMidi nearestMidi,
                                      probability = cpp_clamp probability 0 1\<rparr>
                               in (result, d2\<lparr>m_lastResult := result\<rparr>))))))"

definition dsp_processBuffer ::
  "YinPitchDetector \<Rightarrow> double list option \<Rightarrow> nat \<Rightarrow> PitchResult \<times> YinPitchDetector" where
  "dsp_processBuffer d samples numSamples =
     (case samples of
        None \<Rightarrow> reject d
      | Some xs \<Rightarrow>
          if numSamples < m_bufferSize d \<or> m_maxLag d < 2 \<or> le_zero (m_sampleRate d) then reject d
          else
            (let d1 = computeDifference d xs;
                 d2 = computeCumulativeMeanNormalized d1;
                 (tau, probability) = absoluteThreshold d2
             in if tau = 0 then reject d2
                else
                  (let refinedTau =
                         (if tau > 1 \<and> tau < m_maxLag d2
                          then dsp_parabolicInterpolation tau (m_cumulative d2)
                          else real tau)
                   in if refinedTau \<le> 0 then reject d2
                      else
                        (let frequency = divide_by (m_sampleRate d2) refinedTau
                         in if \<not> isfinite frequency \<or> le_zero frequency then reject d2
                            else
                              (let midi = dsp_midiFromFrequency (finite_value frequency);
                                   nearestMidi = c_round midi;
                                   cents = (midi - nearestMidi) * 100;
                                   result =
                                     \<lparr>isValid = probability > 0,
                                      frequency = finite_value frequency,
                                      midi = midi, cents = cents,
                                      noteName = dsp_noteNameFromMidi (Finite nearestMidi),
                                      probability = std_clamp probability 0 1\<rparr>
                               in (result, d2\<lparr>m_lastResult := result\<rparr>))))))"

subsection \<open>Invariant of a constructed detector\<close>

text \<open>
  What the constructors establish and no member function changes: the lag bound and the
  sizes of the two scratch vectors.
\<close>

definition detector_inv :: "YinPitchDetector \<Rightarrow> bool" where
  "detector_inv d \<longleftrightarrow>
     m_maxLag d = m_bufferSize d div 2 \<and>
     length (m_difference d) = m_maxLag d + 1 \<and>
     length (m_cumulative d) = m_maxLag d + 1"

text \<open>The two analysis passes that \<^verbatim>\<open>processBuffer\<close> runs once its guard has passed.\<close>

definition analysed :: "YinPitchDetector \<Rightarrow> double list \<Rightarrow> YinPitchDetector" where
  "analysed d x = computeCumulativeMeanNormalized (computeDifference d x)"

section \<open>The sample ring buffer\<close>

text \<open>
  \<^verbatim>\<open>FloatRingBuffer\<close> of src/native/cpp/FloatRingBuffer.hpp. \<^verbatim>\<open>std::size_t\<close> is a 64-bit
  word here: the two cursors only ever grow, and their difference and the masked index are
  computed with wrap-around. The stored \<^verbatim>\<open>float\<close> samples are copied and never computed
  with. The atomics are read and written in program order by one caller at a time.
\<close>

type_synonym size_t = "64 word"

type_synonym float = real

record FloatRingBuffer =
  m_capacity :: size_t
  m_mask :: size_t
  m_buffer :: "float list"
  m_writeIndex :: size_t
  m_readIndex :: size_t

text \<open>
  \<^verbatim>\<open>nextPowerOfTwo\<close>. The loop \<^verbatim>\<open>while (v < value) v <<= 1\<close> does not end when \<open>value\<close>
  exceeds \<open>2\<^sup>6\<^sup>3\<close>: the shift reaches 0 and stays there. Not returning is \<open>None\<close>.
\<close>

partial_function (option) nextPowerOfTwo_loop :: "size_t \<Rightarrow> size_t \<Rightarrow> size_t option" where
  "nextPowerOfTwo_loop v value =
     (if v < value then nextPowerOfTwo_loop (push_bit 1 v) value else Some v)"

declare nextPowerOfTwo_loop.simps [code]

definition nextPowerOfTwo :: "size_t \<Rightarrow> size_t option" where
  "nextPowerOfTwo value0 =
     (let value = (if value0 = 0 then 1 else value0); v = 1
      in if v \<ge> value then Some v else nextPowerOfTwo_loop v value)"

text \<open>The constructor.\<close>

definition FloatRingBuffer_new :: "size_t \<Rightarrow> FloatRingBuffer option" where
  "FloatRingBuffer_new capacityFrames =
     (case nextPowerOfTwo capacityFrames of
        None \<Rightarrow> None
      | Some c \<Rightarrow>
          Some \<lparr>m_capacity = c, m_mask = c - 1, m_buffer = replicate (unat c) 0,
                m_writeIndex = 0, m_readIndex = 0\<rparr>)"

text \<open>A counter below a bound can be incremented without wrapping.\<close>

lemma unat_increment:
  fixes w t :: size_t
  assumes "w < t"
  shows "unat (w + 1) = Suc (unat w)"
proof -
  have "unat t < 2 ^ LENGTH(64)" by (rule unsigned_less)
  with assms have "unat w + unat (1 :: size_t) < 2 ^ LENGTH(64)"
    by (simp add: word_less_nat_alt)
  then have "unat (w + 1) = unat w + unat (1 :: size_t)"
    by (simp only: unat_add_lem)
  then show ?thesis by simp
qed

text \<open>
  The copy loop of \<^verbatim>\<open>write\<close>. \<open>data\<close> is the array behind the source pointer; the caller
  owes it at least \<open>frames\<close> elements.
\<close>

function write_loop ::
  "size_t \<Rightarrow> size_t \<Rightarrow> float list \<Rightarrow> size_t \<Rightarrow> size_t \<Rightarrow> float list \<Rightarrow> size_t \<times> float list" where
  "write_loop maskv localWrite data toWrite written buffer =
     (if written < toWrite
      then write_loop maskv localWrite data toWrite (written + 1)
             (buffer[unat ((localWrite + written) AND maskv) := data ! unat written])
      else (written, buffer))"
  by pat_completeness auto
termination
proof (relation "measure (\<lambda>(maskv, localWrite, data, toWrite, written, buffer). unat toWrite - unat written)")
  show "wf (measure (\<lambda>(maskv, localWrite, data, toWrite, written, buffer). unat toWrite - unat written))"
    by simp
next
  fix maskv localWrite :: size_t and data :: "float list" and toWrite written :: size_t
    and buffer :: "float list"
  assume less: "written < toWrite"
  then have "unat (written + 1) = Suc (unat written)"
    by (rule unat_increment)
  with less show "((maskv, localWrite, data, toWrite, written + 1,
        buffer[unat ((localWrite + written) AND maskv) := data ! unat written]),
       (maskv, localWrite, data, toWrite, written, buffer))
      \<in> measure (\<lambda>(maskv, localWrite, data, toWrite, written, buffer). unat toWrite - unat written)"
    by (simp add: word_less_nat_alt)
qed

declare write_loop.simps [simp del]

text \<open>
  \<^verbatim>\<open>write\<close> (the name is an Isabelle keyword, hence the prefix; \<^verbatim>\<open>read\<close> likewise).
  \<open>data\<close> is \<open>None\<close> for a null pointer. The result is the count and the ring after the call.
\<close>

definition rb_write :: "FloatRingBuffer \<Rightarrow> float list option \<Rightarrow> size_t \<Rightarrow> size_t \<times> FloatRingBuffer" where
  "rb_write rb data frames =
     (case data of
        None \<Rightarrow> (0, rb)
      | Some xs \<Rightarrow>
          if frames = 0 then (0, rb)
          else
            (let localWrite = m_writeIndex rb;
                 localRead = m_readIndex rb;
                 available = m_capacity rb - (localWrite - localRead);
                 toWrite = (if frames > available then available else frames)
             in if toWrite = 0 then (0, rb)
                else
                  (let (written, buffer) =
                         write_loop (m_mask rb) localWrite xs toWrite 0 (m_buffer rb)
                   in (written, rb\<lparr>m_buffer := buffer, m_writeIndex := localWrite + written\<rparr>))))"

text \<open>The copy loop of \<^verbatim>\<open>read\<close>, into the array behind the destination pointer.\<close>

function read_loop ::
  "size_t \<Rightarrow> size_t \<Rightarrow> float list \<Rightarrow> size_t \<Rightarrow> size_t \<Rightarrow> float list \<Rightarrow> size_t \<times> float list" where
  "read_loop maskv localRead buffer toRead nread dst =
     (if nread < toRead
      then read_loop maskv localRead buffer toRead (nread + 1)
             (dst[unat nread := buffer ! unat ((localRead + nread) AND maskv)])
      else (nread, dst))"
  by pat_completeness auto
termination
proof (relation "measure (\<lambda>(maskv, localRead, buffer, toRead, nread, dst). unat toRead - unat nread)")
  show "wf (measure (\<lambda>(maskv, localRead, buffer, toRead, nread, dst). unat toRead - unat nread))"
    by simp
next
  fix maskv localRead :: size_t and buffer :: "float list" and toRead nread :: size_t
    and dst :: "float list"
  assume less: "nread < toRead"
  then have "unat (nread + 1) = Suc (unat nread)"
    by (rule unat_increment)
  with less show "((maskv, localRead, buffer, toRead, nread + 1,
        dst[unat nread := buffer ! unat ((localRead + nread) AND maskv)]),
       (maskv, localRead, buffer, toRead, nread, dst))
      \<in> measure (\<lambda>(maskv, localRead, buffer, toRead, nread, dst). unat toRead - unat nread)"
    by (simp add: word_less_nat_alt)
qed

declare read_loop.simps [simp del]

text \<open>
  \<open>dst\<close> is \<open>None\<close> for a null pointer. The result is the count, the destination array after
  the call and the ring after the call.
\<close>

definition rb_read ::
  "FloatRingBuffer \<Rightarrow> float list option \<Rightarrow> size_t \<Rightarrow> size_t \<times> float list option \<times> FloatRingBuffer" where
  "rb_read rb dst frames =
     (case dst of
        None \<Rightarrow> (0, None, rb)
      | Some ys \<Rightarrow>
          if frames = 0 then (0, Some ys, rb)
          else
            (let localRead = m_readIndex rb;
                 localWrite = m_writeIndex rb;
                 available = localWrite - localRead;
                 toRead = (if frames > available then available else frames)
             in if toRead = 0 then (0, Some ys, rb)
                else
                  (let (nread, ys') = read_loop (m_mask rb) localRead (m_buffer rb) toRead 0 ys
                   in (nread, Some ys', rb\<lparr>m_readIndex := localRead + nread\<rparr>))))"

definition reset :: "FloatRingBuffer \<Rightarrow> FloatRingBuffer" where
  "reset rb = rb\<lparr>m_readIndex := m_writeIndex rb\<rparr>"

definition available :: "FloatRingBuffer \<Rightarrow> size_t" where
  "available rb = m_writeIndex rb - m_readIndex rb"

definition freeSpace :: "FloatRingBuffer \<Rightarrow> size_t" where
  "freeSpace rb = m_capacity rb - (m_writeIndex rb - m_readIndex rb)"

text \<open>
  The states a ring can be in: built by the constructor, then changed by calls of its member
  functions with arrays as long as the counts passed beside them.
\<close>

inductive reachable :: "FloatRingBuffer \<Rightarrow> bool" where
  constructed: "FloatRingBuffer_new capacityFrames = Some rb \<Longrightarrow> reachable rb"
| written: "reachable rb \<Longrightarrow> unat frames \<le> length xs \<Longrightarrow>
     reachable (snd (rb_write rb (Some xs) frames))"
| was_read: "reachable rb \<Longrightarrow> unat frames \<le> length ys \<Longrightarrow>
     reachable (snd (snd (rb_read rb (Some ys) frames)))"
| was_reset: "reachable rb \<Longrightarrow> reachable (reset rb)"

text \<open>The unread samples, oldest first: what the indexing of \<^verbatim>\<open>read\<close> would deliver.\<close>

definition contents :: "FloatRingBuffer \<Rightarrow> float list" where
  "contents rb =
     map (\<lambda>i. m_buffer rb ! unat ((m_readIndex rb + of_nat i) AND m_mask rb))
       [0..<unat (available rb)]"

text \<open>
  What holds of every reachable ring: the capacity is a power of two, the mask is one less, the
  vector has as many entries, and the cursors are never more than the capacity apart.
\<close>

definition ring_inv :: "FloatRingBuffer \<Rightarrow> bool" where
  "ring_inv rb \<longleftrightarrow>
     (\<exists>k<64. m_capacity rb = 2 ^ k \<and> m_mask rb = 2 ^ k - 1 \<and> length (m_buffer rb) = 2 ^ k) \<and>
     m_writeIndex rb - m_readIndex rb \<le> m_capacity rb"

section \<open>The Android stream controller\<close>

text \<open>
  \<^verbatim>\<open>PitchDetector\<close> of src/android/app/src/main/cpp/PitchDetector.cpp. It is built on the dsp
  copy of the detector. Its \<^verbatim>\<open>int32_t\<close> counts are integers: \<open>bufferSize\<close> is clamped from
  below, and the fill count stays between 0 and the frame length, so no operation on them
  overflows. \<open>m_stream\<close> records whether the controller holds a stream. The Java dispatcher is
  outside the model: the results handed to \<^verbatim>\<open>emitPitchResult\<close> are collected in a list, in
  the order of the calls. Calls are taken one at a time (the mutex and the atomic flag are not
  modelled). The fields \<open>m_sampleRate\<close> and \<open>m_threshold\<close> carry the suffix \<open>_pd\<close>, since the
  detector has fields of the same names.
\<close>

record PitchDetector =
  m_stream :: bool
  m_detector :: "YinPitchDetector option"
  m_accumulator :: "float list"
  m_accumulatorSize :: int
  m_analysisFrameCount :: int
  m_hopFrameCount :: int
  m_sampleRate_pd :: double
  m_threshold_pd :: double
  m_running :: bool

text \<open>The member initialisers, and the \<^verbatim>\<open>resize\<close> of the accumulator in the constructor.\<close>

definition PitchDetector_new :: PitchDetector where
  "PitchDetector_new =
     \<lparr>m_stream = False, m_detector = None, m_accumulator = replicate 2048 0,
      m_accumulatorSize = 0, m_analysisFrameCount = 2048, m_hopFrameCount = 1024,
      m_sampleRate_pd = 48000, m_threshold_pd = 15 / 100, m_running = False\<rparr>"

text \<open>
  What the audio library answers to \<^verbatim>\<open>start\<close>: \<^verbatim>\<open>openStream\<close> fails; the stream opens
  with a sample rate and \<^verbatim>\<open>requestStart\<close> fails; or the stream opens and starts. The
  sample rate of a stream is an \<^verbatim>\<open>int32_t\<close>, so the \<^verbatim>\<open>double\<close> made of it is finite.
\<close>

datatype stream_outcome = OpenFailed | StartFailed double | Started double

definition start :: "PitchDetector \<Rightarrow> stream_outcome \<Rightarrow> int \<Rightarrow> double \<Rightarrow> bool \<times> PitchDetector" where
  "start pd outcome bufferSize threshold =
     (if m_running pd then (True, pd)
      else
        (let pd1 = pd\<lparr>m_analysisFrameCount := max 256 bufferSize\<rparr>;
             pd2 = pd1\<lparr>m_hopFrameCount := max (m_analysisFrameCount pd1 div 2) 1\<rparr>;
             pd3 = pd2\<lparr>m_threshold_pd := std_clamp threshold (1 / 1000) (999 / 1000)\<rparr>
         in case outcome of
              OpenFailed \<Rightarrow> (False, pd3\<lparr>m_stream := False\<rparr>)
            | StartFailed rate \<Rightarrow>
                (let pd4 = pd3\<lparr>m_stream := True, m_sampleRate_pd := rate\<rparr>;
                     pd5 = pd4\<lparr>m_detector :=
                                  Some (dsp_YinPitchDetector (Finite (m_sampleRate_pd pd4))
                                          (nat (m_analysisFrameCount pd4)) (m_threshold_pd pd4))\<rparr>;
                     pd6 = pd5\<lparr>m_accumulator := replicate (nat (m_analysisFrameCount pd5)) 0,
                                m_accumulatorSize := 0\<rparr>
                 in (False, pd6\<lparr>m_stream := False\<rparr>))
            | Started rate \<Rightarrow>
                (let pd4 = pd3\<lparr>m_stream := True, m_sampleRate_pd := rate\<rparr>;
                     pd5 = pd4\<lparr>m_detector :=
                                  Some (dsp_YinPitchDetector (Finite (m_sampleRate_pd pd4))
                                          (nat (m_analysisFrameCount pd4)) (m_threshold_pd pd4))\<rparr>;
                     pd6 = pd5\<lparr>m_accumulator := replicate (nat (m_analysisFrameCount pd5)) 0,
                                m_accumulatorSize := 0\<rparr>
                 in (True, pd6\<lparr>m_running := True\<rparr>))))"

definition stop :: "PitchDetector \<Rightarrow> bool \<times> PitchDetector" where
  "stop pd =
     (if \<not> m_running pd then (False, pd)
      else (True, pd\<lparr>m_running := False, m_stream := False, m_detector := None,
                     m_accumulatorSize := 0\<rparr>))"

definition setThreshold :: "PitchDetector \<Rightarrow> double \<Rightarrow> PitchDetector" where
  "setThreshold pd threshold =
     (let clamped = std_clamp threshold (1 / 1000) (999 / 1000)
      in pd\<lparr>m_threshold_pd := clamped,
             m_detector := map_option (\<lambda>d. dsp_setThreshold d clamped) (m_detector pd)\<rparr>)"

text \<open>
  The two halves of the body of the loop in \<^verbatim>\<open>onAudioReady\<close>. First the \<^verbatim>\<open>memcpy\<close> of
  \<open>framesToCopy\<close> samples behind the fill count, with the advance of the input pointer and
  of \<open>framesRemaining\<close>:
\<close>

definition copy_frames :: "PitchDetector \<Rightarrow> float list \<Rightarrow> int \<Rightarrow> PitchDetector \<times> float list \<times> int" where
  "copy_frames pd input framesRemaining =
     (let space = m_analysisFrameCount pd - m_accumulatorSize pd;
          framesToCopy = min space framesRemaining
      in if framesToCopy > 0
         then (pd\<lparr>m_accumulator :=
                     take (nat (m_accumulatorSize pd)) (m_accumulator pd) @
                     take (nat framesToCopy) input @
                     drop (nat (m_accumulatorSize pd) + nat framesToCopy) (m_accumulator pd),
                   m_accumulatorSize := m_accumulatorSize pd + framesToCopy\<rparr>,
               drop (nat framesToCopy) input, framesRemaining - framesToCopy)
         else (pd, input, framesRemaining))"

text \<open>
  Then, for a full accumulator and a detector \<open>d\<close>: the call of \<^verbatim>\<open>processBuffer\<close> on the
  whole accumulator, and the \<^verbatim>\<open>memmove\<close> of the trailing samples to the front.
\<close>

definition dispatch_frame :: "PitchDetector \<Rightarrow> YinPitchDetector \<Rightarrow> PitchDetector \<times> PitchResult" where
  "dispatch_frame pd d =
     (let (result, d') = dsp_processBuffer d (Some (m_accumulator pd)) (nat (m_analysisFrameCount pd));
          pd1 = pd\<lparr>m_detector := Some d'\<rparr>
      in if m_hopFrameCount pd1 < m_analysisFrameCount pd1
         then (let remaining = m_analysisFrameCount pd1 - m_hopFrameCount pd1
               in (pd1\<lparr>m_accumulator :=
                          (if remaining > 0
                           then take (nat remaining) (drop (nat (m_hopFrameCount pd1)) (m_accumulator pd1)) @
                                drop (nat remaining) (m_accumulator pd1)
                           else m_accumulator pd1),
                        m_accumulatorSize := remaining\<rparr>, result))
         else (pd1\<lparr>m_accumulatorSize := 0\<rparr>, result))"

text \<open>
  The \<^verbatim>\<open>while (framesRemaining > 0)\<close> loop. It need not end (a hop of 0 dispatches the same
  frame for ever), so not returning is \<open>None\<close>. \<open>emitted\<close> collects the results emitted so far.
\<close>

partial_function (option) accumulate ::
  "PitchDetector \<Rightarrow> float list \<Rightarrow> int \<Rightarrow> PitchResult list \<Rightarrow> (PitchDetector \<times> PitchResult list) option" where
  "accumulate pd input framesRemaining emitted =
     (if framesRemaining > 0
      then (case copy_frames pd input framesRemaining of
              (pd1, input1, framesRemaining1) \<Rightarrow>
                (case m_detector pd1 of
                   Some d \<Rightarrow>
                     if m_accumulatorSize pd1 \<ge> m_analysisFrameCount pd1
                     then (case dispatch_frame pd1 d of
                             (pd2, result) \<Rightarrow>
                               accumulate pd2 input1 framesRemaining1 (emitted @ [result]))
                     else Some (pd1, emitted)
                 | None \<Rightarrow> Some (pd1, emitted)))
      else Some (pd, emitted))"

declare accumulate.simps [code]

datatype DataCallbackResult = Continue | Stop

text \<open>
  \<open>audioData\<close> is the array behind the pointer, of \<open>numFrames\<close> samples; \<open>sink\<close> holds
  the results the dispatcher has received before the call.
\<close>

definition onAudioReady ::
  "PitchDetector \<Rightarrow> float list \<Rightarrow> int \<Rightarrow> PitchResult list \<Rightarrow>
     (DataCallbackResult \<times> PitchDetector \<times> PitchResult list) option" where
  "onAudioReady pd audioData numFrames sink =
     (if \<not> m_running pd then Some (Stop, pd, sink)
      else (case accumulate pd audioData numFrames sink of
              None \<Rightarrow> None
            | Some (pd', sink') \<Rightarrow> Some (Continue, pd', sink')))"

text \<open>
  A stream delivered as a sequence of callbacks, one per chunk: the controller and the sink
  after the last one.
\<close>

fun deliver ::
  "PitchDetector \<Rightarrow> float list list \<Rightarrow> PitchResult list \<Rightarrow> (PitchDetector \<times> PitchResult list) option" where
  "deliver pd [] sink = Some (pd, sink)"
| "deliver pd (chunk # chunks) sink =
     (case onAudioReady pd chunk (int (length chunk)) sink of
        None \<Rightarrow> None
      | Some (r, pd', sink') \<Rightarrow> deliver pd' chunks sink')"

text \<open>
  What \<^verbatim>\<open>start\<close> establishes for a running controller and the loop keeps between
  callbacks: a detector, a positive hop, an accumulator of the frame length and a fill count
  below it.
\<close>

definition accumulating :: "PitchDetector \<Rightarrow> bool" where
  "accumulating pd \<longleftrightarrow>
     m_running pd \<and> m_detector pd \<noteq> None \<and>
     0 < m_hopFrameCount pd \<and> 0 < m_analysisFrameCount pd \<and>
     0 \<le> m_accumulatorSize pd \<and> m_accumulatorSize pd < m_analysisFrameCount pd \<and>
     int (length (m_accumulator pd)) = m_analysisFrameCount pd"

text \<open>The controller after the samples \<open>zs\<close> have been copied behind the fill count.\<close>

definition fill :: "PitchDetector \<Rightarrow> float list \<Rightarrow> PitchDetector" where
  "fill pd zs =
     pd\<lparr>m_accumulator :=
          take (nat (m_accumulatorSize pd)) (m_accumulator pd) @ zs @
          drop (nat (m_accumulatorSize pd) + length zs) (m_accumulator pd),
        m_accumulatorSize := m_accumulatorSize pd + int (length zs)\<rparr>"

section \<open>Properties of the detector\<close>

subsection \<open>Sample rates\<close>

lemma isfinite_simps [simp]:
  "isfinite (Finite r)" "\<not> isfinite PosInf" "\<not> isfinite NegInf" "\<not> isfinite NaN"
  by (simp_all add: isfinite_def)

lemma le_zero_simps [simp]:
  "le_zero (Finite r) \<longleftrightarrow> r \<le> 0" "\<not> le_zero PosInf" "le_zero NegInf" "\<not> le_zero NaN"
  by (simp_all add: le_zero_def)

lemma finite_value_Finite [simp]: "finite_value (Finite r) = r"
  by (simp add: finite_value_def)

lemma divide_by_positive [simp]:
  assumes "0 < t"
  shows "divide_by (Finite r) t = Finite (r / t)" "divide_by PosInf t = PosInf"
    "divide_by NegInf t = NegInf" "divide_by NaN t = NaN"
  using assms by (simp_all add: divide_by_def)

subsection \<open>The loops compute the sums\<close>

lemma difference_sum_eq:
  "difference_sum xs N tau i s = s + (\<Sum>j = i..<N - tau. (xs ! j - xs ! (j + tau))\<^sup>2)"
proof (induction xs N tau i s rule: difference_sum.induct)
  case (1 samples bufferSize tau i sumv)
  show ?case
  proof (cases "i < bufferSize - tau")
    case True
    then show ?thesis
      using "1.IH" [OF True]
      by (subst difference_sum.simps) (simp add: sum.atLeast_Suc_lessThan power2_eq_square)
  next
    case False
    then show ?thesis by (subst difference_sum.simps) simp
  qed
qed

lemma length_difference_loop [simp]:
  "length (difference_loop xs N maxLag tau diff) = length diff"
  by (induction xs N maxLag tau diff rule: difference_loop.induct)
     (subst difference_loop.simps, simp)

lemma difference_loop_nth:
  "k < length diff \<Longrightarrow> difference_loop xs N maxLag tau diff ! k =
     (if tau \<le> k \<and> k \<le> maxLag then difference_sum xs N k 0 0 else diff ! k)"
proof (induction xs N maxLag tau diff rule: difference_loop.induct)
  case (1 samples bufferSize maxLag tau diff)
  show ?case
  proof (cases "tau \<le> maxLag")
    case True
    let ?diff' = "diff[tau := difference_sum samples bufferSize tau 0 0]"
    have unfold: "difference_loop samples bufferSize maxLag tau diff =
        difference_loop samples bufferSize maxLag (tau + 1) ?diff'"
      using True by (subst difference_loop.simps) simp
    have IH: "difference_loop samples bufferSize maxLag (tau + 1) ?diff' ! k =
        (if tau + 1 \<le> k \<and> k \<le> maxLag then difference_sum samples bufferSize k 0 0
         else ?diff' ! k)"
      using "1.IH" [OF True] "1.prems" by simp
    show ?thesis
    proof (cases "k = tau")
      case True
      then show ?thesis
        using unfold IH "1.prems" \<open>tau \<le> maxLag\<close> by simp
    next
      case False
      then show ?thesis
        using unfold IH "1.prems" by auto
    qed
  next
    case False
    then show ?thesis by (subst difference_loop.simps) simp
  qed
qed

lemma length_cumulative_loop [simp]:
  "length (cumulative_loop diff maxLag tau rs cum) = length cum"
  by (induction diff maxLag tau rs cum rule: cumulative_loop.induct)
     (subst cumulative_loop.simps, simp add: Let_def)

lemma cumulative_loop_nth:
  "k < length cum \<Longrightarrow> cumulative_loop diff maxLag tau rs cum ! k =
     (if tau \<le> k \<and> k \<le> maxLag
      then (if rs + (\<Sum>j = tau..k. diff ! j) = 0 then 1
            else diff ! k * real k / (rs + (\<Sum>j = tau..k. diff ! j)))
      else cum ! k)"
proof (induction diff maxLag tau rs cum rule: cumulative_loop.induct)
  case (1 diff maxLag tau runningSum cum)
  show ?case
  proof (cases "tau \<le> maxLag")
    case True
    let ?rs' = "runningSum + diff ! tau"
    let ?cum' = "cum[tau := (if ?rs' = 0 then 1 else (diff ! tau * real tau) / ?rs')]"
    have unfold: "cumulative_loop diff maxLag tau runningSum cum =
        cumulative_loop diff maxLag (tau + 1) ?rs' ?cum'"
      using True by (subst cumulative_loop.simps) (simp add: Let_def)
    have IH: "cumulative_loop diff maxLag (tau + 1) ?rs' ?cum' ! k =
        (if tau + 1 \<le> k \<and> k \<le> maxLag
         then (if ?rs' + (\<Sum>j = tau + 1..k. diff ! j) = 0 then 1
               else diff ! k * real k / (?rs' + (\<Sum>j = tau + 1..k. diff ! j)))
         else ?cum' ! k)"
      using "1.IH" [OF True refl] "1.prems" by simp
    show ?thesis
    proof (cases "k = tau")
      case True
      then show ?thesis
        using unfold IH "1.prems" \<open>tau \<le> maxLag\<close> by simp
    next
      case False
      have "tau \<le> k \<Longrightarrow> (\<Sum>j = tau..k. diff ! j) = diff ! tau + (\<Sum>j = tau + 1..k. diff ! j)"
        by (simp add: sum.atLeast_Suc_atMost)
      then show ?thesis
        using False unfold IH "1.prems" by (auto simp: add.assoc)
    qed
  next
    case False
    then show ?thesis by (subst cumulative_loop.simps) simp
  qed
qed


lemma detector_inv_constructors:
  "detector_inv (cpp_YinPitchDetector sr n t)" "detector_inv (dsp_YinPitchDetector sr n t)"
  by (simp_all add: detector_inv_def cpp_YinPitchDetector_def dsp_YinPitchDetector_def)

lemma computeDifference_fields [simp]:
  "m_sampleRate (computeDifference d x) = m_sampleRate d"
  "m_bufferSize (computeDifference d x) = m_bufferSize d"
  "m_maxLag (computeDifference d x) = m_maxLag d"
  "m_threshold (computeDifference d x) = m_threshold d"
  "m_cumulative (computeDifference d x) = m_cumulative d"
  "length (m_difference (computeDifference d x)) = length (m_difference d)"
  by (simp_all add: computeDifference_def Let_def)

lemma computeCumulative_fields [simp]:
  "m_sampleRate (computeCumulativeMeanNormalized d) = m_sampleRate d"
  "m_bufferSize (computeCumulativeMeanNormalized d) = m_bufferSize d"
  "m_maxLag (computeCumulativeMeanNormalized d) = m_maxLag d"
  "m_threshold (computeCumulativeMeanNormalized d) = m_threshold d"
  "m_difference (computeCumulativeMeanNormalized d) = m_difference d"
  "length (m_cumulative (computeCumulativeMeanNormalized d)) = length (m_cumulative d)"
  by (simp_all add: computeCumulativeMeanNormalized_def)

lemma computeDifference_nth:
  assumes "k < length (m_difference d)"
  shows "m_difference (computeDifference d x) ! k =
     (if 1 \<le> k \<and> k \<le> m_maxLag d
      then (\<Sum>i = 0..<m_bufferSize d - k. (x ! i - x ! (i + k))\<^sup>2) else 0)"
proof (cases "k = 0")
  case True
  with assms show ?thesis by (simp add: computeDifference_def Let_def)
next
  case False
  with assms show ?thesis
    by (simp add: computeDifference_def Let_def difference_loop_nth difference_sum_eq)
qed

lemma computeCumulative_nth:
  assumes "k < length (m_cumulative d)"
  shows "m_cumulative (computeCumulativeMeanNormalized d) ! k =
     (if k = 0 then 1
      else if k \<le> m_maxLag d
      then (if (\<Sum>j = 1..k. m_difference d ! j) = 0 then 1
            else m_difference d ! k * real k / (\<Sum>j = 1..k. m_difference d ! j))
      else m_cumulative d ! k)"
  using assms
  by (auto simp: computeCumulativeMeanNormalized_def cumulative_loop_nth)

lemma cpp_processBuffer_state:
  assumes "m_bufferSize d \<le> numSamples" "2 \<le> m_maxLag d" "\<not> le_zero (m_sampleRate d)"
  shows "snd (cpp_processBuffer d (Some x) numSamples) =
     (analysed d x)\<lparr>m_lastResult := fst (cpp_processBuffer d (Some x) numSamples)\<rparr>"
  using assms
  by (simp add: cpp_processBuffer_def reject_def analysed_def Let_def split: prod.splits)

lemma dsp_processBuffer_state:
  assumes "m_bufferSize d \<le> numSamples" "2 \<le> m_maxLag d" "\<not> le_zero (m_sampleRate d)"
  shows "snd (dsp_processBuffer d (Some x) numSamples) =
     (analysed d x)\<lparr>m_lastResult := fst (dsp_processBuffer d (Some x) numSamples)\<rparr>"
  using assms
  by (simp add: dsp_processBuffer_def reject_def analysed_def Let_def split: prod.splits)

text \<open>
  Claim C1, as amended. On a frame of at least \<open>bufferSize\<close> samples given to a detector
  whose \<open>maxLag\<close> is at least 2 and whose sample rate is not \<open>\<le> 0\<close> (the calls that pass
  the guard of \<^verbatim>\<open>processBuffer\<close>), either copy leaves in \<open>m_difference\<close> the value 0 at
  lag 0 and, at every lag \<open>\<tau>\<close> from 1 to \<open>maxLag = bufferSize div 2\<close>, the sum of the
  squared differences \<open>(x[i] - x[i + \<tau>])\<^sup>2\<close> for \<open>i\<close> from 0 to \<open>bufferSize - \<tau> - 1\<close>;
  and in \<open>m_cumulative\<close> the value 1 at lag 0 and, at every such \<open>\<tau>\<close>, 1 when the running
  sum \<open>d(1) + ... + d(\<tau>)\<close> is 0 and \<open>d(\<tau>) * \<tau>\<close> over that sum otherwise.
\<close>

theorem C1_difference_and_cumulative_buffers:
  assumes inv: "detector_inv d"
    and enough: "m_bufferSize d \<le> numSamples" "numSamples \<le> length x"
    and config: "2 \<le> m_maxLag d" "\<not> le_zero (m_sampleRate d)"
    and run: "d' = snd (cpp_processBuffer d (Some x) numSamples) \<or>
              d' = snd (dsp_processBuffer d (Some x) numSamples)"
  shows "m_maxLag d' = m_bufferSize d div 2 \<and>
     m_difference d' ! 0 = 0 \<and>
     (\<forall>\<tau>. 1 \<le> \<tau> \<and> \<tau> \<le> m_maxLag d' \<longrightarrow>
        m_difference d' ! \<tau> = (\<Sum>i = 0..<m_bufferSize d - \<tau>. (x ! i - x ! (i + \<tau>))\<^sup>2)) \<and>
     m_cumulative d' ! 0 = 1 \<and>
     (\<forall>\<tau>. 1 \<le> \<tau> \<and> \<tau> \<le> m_maxLag d' \<longrightarrow>
        m_cumulative d' ! \<tau> =
          (if (\<Sum>k = 1..\<tau>. m_difference d' ! k) = 0 then 1
           else m_difference d' ! \<tau> * real \<tau> / (\<Sum>k = 1..\<tau>. m_difference d' ! k)))"
proof -
  from run obtain r where d': "d' = (analysed d x)\<lparr>m_lastResult := r\<rparr>"
    using cpp_processBuffer_state [OF enough(1) config] dsp_processBuffer_state [OF enough(1) config]
    by metis
  have len: "length (m_difference d) = m_maxLag d + 1" "length (m_cumulative d) = m_maxLag d + 1"
    and lag: "m_maxLag d = m_bufferSize d div 2"
    using inv by (simp_all add: detector_inv_def)
  have diff: "m_difference d' ! k =
      (if 1 \<le> k \<and> k \<le> m_maxLag d
       then (\<Sum>i = 0..<m_bufferSize d - k. (x ! i - x ! (i + k))\<^sup>2) else 0)"
    if "k \<le> m_maxLag d" for k
    using that len by (simp add: d' analysed_def computeDifference_nth)
  have cum: "m_cumulative d' ! k =
      (if k = 0 then 1
       else if (\<Sum>j = 1..k. m_difference d' ! j) = 0 then 1
       else m_difference d' ! k * real k / (\<Sum>j = 1..k. m_difference d' ! j))"
    if "k \<le> m_maxLag d" for k
    using that len by (simp add: d' analysed_def computeCumulative_nth)
  have "m_maxLag d' = m_bufferSize d div 2"
    by (simp add: d' analysed_def lag)
  moreover have "m_maxLag d' = m_maxLag d"
    by (simp add: d' analysed_def)
  ultimately show ?thesis
    using diff cum by simp
qed

theorem C1_difference_and_cumulative_buffers_witness:
  "m_difference (snd (cpp_processBuffer (cpp_YinPitchDetector (Finite 880) 4 (1 / 10)) (Some [0, 1, 0, 1]) 4)) ! 1 = 3 \<and>
   m_difference (snd (cpp_processBuffer (cpp_YinPitchDetector (Finite 880) 4 (1 / 10)) (Some [0, 1, 0, 1]) 4)) ! 2 = 0 \<and>
   m_cumulative (snd (cpp_processBuffer (cpp_YinPitchDetector (Finite 880) 4 (1 / 10)) (Some [0, 1, 0, 1]) 4)) ! 1 = 1 \<and>
   m_cumulative (snd (cpp_processBuffer (cpp_YinPitchDetector (Finite 880) 4 (1 / 10)) (Some [0, 1, 0, 1]) 4)) ! 2 = 0"
proof -
  let ?d = "cpp_YinPitchDetector (Finite 880) 4 (1 / 10)"
  let ?x = "[0, 1, 0, 1] :: double list"
  let ?d' = "snd (cpp_processBuffer ?d (Some ?x) 4)"
  have cfg: "m_bufferSize ?d = 4" "m_maxLag ?d = 2" "m_sampleRate ?d = Finite 880"
    by (simp_all add: cpp_YinPitchDetector_def)
  have main: "m_maxLag ?d' = m_bufferSize ?d div 2 \<and>
     m_difference ?d' ! 0 = 0 \<and>
     (\<forall>\<tau>. 1 \<le> \<tau> \<and> \<tau> \<le> m_maxLag ?d' \<longrightarrow>
        m_difference ?d' ! \<tau> = (\<Sum>i = 0..<m_bufferSize ?d - \<tau>. (?x ! i - ?x ! (i + \<tau>))\<^sup>2)) \<and>
     m_cumulative ?d' ! 0 = 1 \<and>
     (\<forall>\<tau>. 1 \<le> \<tau> \<and> \<tau> \<le> m_maxLag ?d' \<longrightarrow>
        m_cumulative ?d' ! \<tau> =
          (if (\<Sum>k = 1..\<tau>. m_difference ?d' ! k) = 0 then 1
           else m_difference ?d' ! \<tau> * real \<tau> / (\<Sum>k = 1..\<tau>. m_difference ?d' ! k)))"
    by (rule C1_difference_and_cumulative_buffers [where numSamples = 4])
       (simp_all add: detector_inv_constructors cfg)
  have lag: "m_maxLag ?d' = 2" using main cfg by simp
  have d1: "m_difference ?d' ! 1 = 3"
    using main lag cfg by (simp add: eval_nat_numeral)
  have d2: "m_difference ?d' ! 2 = 0"
    using main lag cfg by (simp add: eval_nat_numeral)
  have s1: "(\<Sum>k = 1..1. m_difference ?d' ! k) = 3" using d1 by simp
  have s2: "(\<Sum>k = 1..2. m_difference ?d' ! k) = 3"
    using d1 d2 by (simp add: eval_nat_numeral)
  have c1: "m_cumulative ?d' ! 1 = 1"
    using main lag d1 s1 by simp
  have c2: "m_cumulative ?d' ! 2 = 0"
    using main lag d2 s2 by simp
  show ?thesis using d1 d2 c1 c2 by simp
qed

text \<open>
  The claim as it was stated fails on the calls the guard turns away, which return before
  either buffer is computed. With a sample rate of 0 the cpp copy leaves \<open>d(1) = 0\<close> on the
  frame below, where the sum of the claim is 3, and \<open>d'(0) = 0\<close>, where the claim says 1.
  With a buffer of 2 samples, \<open>maxLag = 1\<close>, the dsp copy leaves \<open>d(1) = 0\<close>, where the sum
  is 1.
\<close>

theorem C1_difference_and_cumulative_buffers_counterexample:
  "m_difference (snd (cpp_processBuffer (cpp_YinPitchDetector (Finite 0) 4 (1 / 10)) (Some [0, 1, 0, 1]) 4)) ! 1 = 0 \<and>
   ([0, 1, 0, 1] ! 0 - [0, 1, 0, 1] ! 1)\<^sup>2 + ([0, 1, 0, 1] ! 1 - [0, 1, 0, 1] ! 2)\<^sup>2 +
     ([0, 1, 0, 1] ! 2 - [0, 1, 0, 1] ! 3)\<^sup>2 = (3 :: double) \<and>
   m_cumulative (snd (cpp_processBuffer (cpp_YinPitchDetector (Finite 0) 4 (1 / 10)) (Some [0, 1, 0, 1]) 4)) ! 0 = 0 \<and>
   m_difference (snd (dsp_processBuffer (dsp_YinPitchDetector (Finite 880) 2 (1 / 10)) (Some [0, 1]) 2)) ! 1 = 0 \<and>
   ([0, 1] ! 0 - [0, 1] ! 1)\<^sup>2 = (1 :: double)"
  by (simp add: cpp_processBuffer_def dsp_processBuffer_def reject_def cpp_YinPitchDetector_def
      dsp_YinPitchDetector_def)

subsection \<open>The lag search\<close>

lemma descend_ge: "tau \<le> descend cum tau"
proof (induction cum tau rule: descend.induct)
  case (1 cum tau)
  show ?case
  proof (cases "tau + 1 < length cum \<and> cum ! (tau + 1) < cum ! tau")
    case True
    then show ?thesis using "1.IH" by (subst descend.simps) simp
  next
    case False
    then show ?thesis by (subst descend.simps) auto
  qed
qed

lemma descend_less: "tau < length cum \<Longrightarrow> descend cum tau < length cum"
proof (induction cum tau rule: descend.induct)
  case (1 cum tau)
  show ?case
  proof (cases "tau + 1 < length cum \<and> cum ! (tau + 1) < cum ! tau")
    case True
    then show ?thesis using "1.IH" by (subst descend.simps) simp
  next
    case False
    then show ?thesis using "1.prems" by (subst descend.simps) auto
  qed
qed

lemma descend_strict:
  "tau \<le> k \<Longrightarrow> k < descend cum tau \<Longrightarrow> cum ! (k + 1) < cum ! k"
proof (induction cum tau rule: descend.induct)
  case (1 cum tau)
  show ?case
  proof (cases "tau + 1 < length cum \<and> cum ! (tau + 1) < cum ! tau")
    case True
    then have step: "descend cum tau = descend cum (tau + 1)"
      by (subst descend.simps) simp
    show ?thesis
    proof (cases "k = tau")
      case True
      with \<open>tau + 1 < length cum \<and> cum ! (tau + 1) < cum ! tau\<close> show ?thesis by simp
    next
      case False
      with "1.prems" step "1.IH" [OF True] show ?thesis by simp
    qed
  next
    case False
    then have "descend cum tau = tau" by (subst descend.simps) auto
    with "1.prems" show ?thesis by simp
  qed
qed

lemma descend_stops:
  "descend cum tau + 1 < length cum \<Longrightarrow> \<not> cum ! (descend cum tau + 1) < cum ! descend cum tau"
proof (induction cum tau rule: descend.induct)
  case (1 cum tau)
  show ?case
  proof (cases "tau + 1 < length cum \<and> cum ! (tau + 1) < cum ! tau")
    case True
    then have step: "descend cum tau = descend cum (tau + 1)"
      by (subst descend.simps) simp
    with "1.prems" "1.IH" [OF True] show ?thesis by simp
  next
    case False
    then have "descend cum tau = tau" by (subst descend.simps) auto
    with False "1.prems" show ?thesis by auto
  qed
qed

lemma threshold_scan_None:
  "threshold_scan cum thr tau = None \<longleftrightarrow> (\<forall>k. tau \<le> k \<and> k < length cum \<longrightarrow> \<not> cum ! k < thr)"
proof (induction cum thr tau rule: threshold_scan.induct)
  case (1 cum threshold tau)
  show ?case
  proof (cases "tau < length cum")
    case True
    note inr = True
    show ?thesis
    proof (cases "cum ! tau < threshold")
      case True
      with inr show ?thesis
        by (subst threshold_scan.simps) (auto simp: Let_def)
    next
      case False
      have "(\<forall>k. tau \<le> k \<and> k < length cum \<longrightarrow> \<not> cum ! k < threshold) \<longleftrightarrow>
            (\<forall>k. tau + 1 \<le> k \<and> k < length cum \<longrightarrow> \<not> cum ! k < threshold)"
        using False by (metis Suc_eq_plus1 Suc_leI le_neq_implies_less Suc_leD)
      with inr False "1.IH" [OF inr False] show ?thesis
        by (subst threshold_scan.simps) simp
    qed
  next
    case False
    then show ?thesis by (subst threshold_scan.simps) simp
  qed
qed

lemma threshold_scan_Some:
  "threshold_scan cum thr tau = Some (t, p) \<Longrightarrow>
     \<exists>\<tau>0. tau \<le> \<tau>0 \<and> \<tau>0 < length cum \<and> cum ! \<tau>0 < thr \<and>
          (\<forall>k. tau \<le> k \<and> k < \<tau>0 \<longrightarrow> \<not> cum ! k < thr) \<and>
          t = descend cum \<tau>0 \<and> p = 1 - cum ! t"
proof (induction cum thr tau rule: threshold_scan.induct)
  case (1 cum threshold tau)
  show ?case
  proof (cases "tau < length cum")
    case True
    note inr = True
    show ?thesis
    proof (cases "cum ! tau < threshold")
      case True
      with inr "1.prems" have "t = descend cum tau \<and> p = 1 - cum ! t"
        by (subst (asm) threshold_scan.simps) (auto simp: Let_def)
      with inr True show ?thesis by (intro exI [of _ tau]) simp
    next
      case False
      with inr "1.prems" have "threshold_scan cum threshold (tau + 1) = Some (t, p)"
        by (subst (asm) threshold_scan.simps) simp
      from "1.IH" [OF inr False this] obtain \<tau>0 where
        t0: "tau + 1 \<le> \<tau>0" "\<tau>0 < length cum" "cum ! \<tau>0 < threshold"
          "\<forall>k. tau + 1 \<le> k \<and> k < \<tau>0 \<longrightarrow> \<not> cum ! k < threshold"
          "t = descend cum \<tau>0" "p = 1 - cum ! t"
        by blast
      have "\<forall>k. tau \<le> k \<and> k < \<tau>0 \<longrightarrow> \<not> cum ! k < threshold"
        using t0(4) False by (metis Suc_eq_plus1 Suc_leI le_neq_implies_less)
      with t0 show ?thesis by (intro exI [of _ \<tau>0]) simp
    qed
  next
    case False
    with "1.prems" show ?thesis by (subst (asm) threshold_scan.simps) simp
  qed
qed

lemma minimum_scan_Some:
  assumes "minimum_scan cum tau (Some m) c = (mv, c')"
    and "lo \<le> c" "c < tau" "tau \<le> length cum" "m = cum ! c"
    and "\<forall>k. lo \<le> k \<and> k < tau \<longrightarrow> m \<le> cum ! k"
    and "\<forall>k. lo \<le> k \<and> k < c \<longrightarrow> m < cum ! k"
  shows "lo \<le> c' \<and> c' < length cum \<and> mv = Some (cum ! c') \<and>
     (\<forall>k. lo \<le> k \<and> k < length cum \<longrightarrow> cum ! c' \<le> cum ! k) \<and>
     (\<forall>k. lo \<le> k \<and> k < c' \<longrightarrow> cum ! c' < cum ! k)"
  using assms
proof (induction cum tau "Some m" c arbitrary: m rule: minimum_scan.induct)
  case (1 cum tau c)
  show ?case
  proof (cases "tau < length cum")
    case True
    note inr = True
    show ?thesis
    proof (cases "cum ! tau < m")
      case True
      with inr "1.prems"(1) have run: "minimum_scan cum (tau + 1) (Some (cum ! tau)) tau = (mv, c')"
        by (subst (asm) minimum_scan.simps) simp
      have a: "\<forall>k. lo \<le> k \<and> k < tau + 1 \<longrightarrow> cum ! tau \<le> cum ! k"
        using "1.prems"(6) True by (metis Suc_eq_plus1 less_Suc_eq less_eq_real_def order_trans)
      have b: "\<forall>k. lo \<le> k \<and> k < tau \<longrightarrow> cum ! tau < cum ! k"
        using "1.prems"(6) True by (meson less_le_trans)
      have cond: "case Some m of None \<Rightarrow> True | Some x \<Rightarrow> cum ! tau < x"
        using True by simp
      show ?thesis
        using "1.hyps"(1) [OF inr cond run] "1.prems" inr a b by simp
    next
      case False
      with inr "1.prems"(1) have run: "minimum_scan cum (tau + 1) (Some m) c = (mv, c')"
        by (subst (asm) minimum_scan.simps) simp
      have a: "\<forall>k. lo \<le> k \<and> k < tau + 1 \<longrightarrow> m \<le> cum ! k"
        using "1.prems"(6) False by (metis Suc_eq_plus1 less_Suc_eq not_less)
      have cond: "\<not> (case Some m of None \<Rightarrow> True | Some x \<Rightarrow> cum ! tau < x)"
        using False by simp
      show ?thesis
        using "1.hyps"(2) [OF inr cond run] "1.prems" inr a by simp
    qed
  next
    case False
    with "1.prems" have "mv = Some m" "c' = c" "tau = length cum"
      by (subst (asm) minimum_scan.simps, simp)+
    with "1.prems" show ?thesis by simp
  qed
qed


lemma minimum_scan_empty:
  "length cum \<le> tau \<Longrightarrow> minimum_scan cum tau mv c = (mv, c)"
  by (subst minimum_scan.simps) simp

lemma minimum_scan_start:
  assumes "lo < length cum"
  shows "\<exists>c. minimum_scan cum lo None c0 = (Some (cum ! c), c) \<and> lo \<le> c \<and> c < length cum \<and>
     (\<forall>k. lo \<le> k \<and> k < length cum \<longrightarrow> cum ! c \<le> cum ! k) \<and>
     (\<forall>k. lo \<le> k \<and> k < c \<longrightarrow> cum ! c < cum ! k)"
proof -
  obtain mv c where run: "minimum_scan cum (lo + 1) (Some (cum ! lo)) lo = (mv, c)"
    by (cases "minimum_scan cum (lo + 1) (Some (cum ! lo)) lo") blast
  have first: "minimum_scan cum lo None c0 = (mv, c)"
    using assms run by (subst minimum_scan.simps) simp
  have "\<forall>k. lo \<le> k \<and> k < lo + 1 \<longrightarrow> cum ! lo \<le> cum ! k"
    by (metis Suc_eq_plus1 le_antisym less_Suc_eq_le order_refl)
  then have "lo \<le> c \<and> c < length cum \<and> mv = Some (cum ! c) \<and>
     (\<forall>k. lo \<le> k \<and> k < length cum \<longrightarrow> cum ! c \<le> cum ! k) \<and>
     (\<forall>k. lo \<le> k \<and> k < c \<longrightarrow> cum ! c < cum ! k)"
    using assms by (intro minimum_scan_Some [OF run]) simp_all
  with first show ?thesis by auto
qed

lemma absoluteThreshold_hit:
  assumes "absoluteThreshold d = (tau, p)"
    and "lo0 = 2" "lo0 \<le> \<tau>0" "\<tau>0 < length (m_cumulative d)" "m_cumulative d ! \<tau>0 < m_threshold d"
    and "\<forall>k. lo0 \<le> k \<and> k < \<tau>0 \<longrightarrow> \<not> m_cumulative d ! k < m_threshold d"
  shows "tau = descend (m_cumulative d) \<tau>0 \<and> p = 1 - m_cumulative d ! tau"
proof -
  have "threshold_scan (m_cumulative d) (m_threshold d) 2 \<noteq> None"
    using assms by (auto simp: threshold_scan_None)
  then obtain t q where some: "threshold_scan (m_cumulative d) (m_threshold d) 2 = Some (t, q)"
    by (cases "threshold_scan (m_cumulative d) (m_threshold d) 2") auto
  with assms(1) have tq: "t = tau" "q = p"
    by (simp_all add: absoluteThreshold_def)
  from threshold_scan_Some [OF some] obtain \<tau>1 where
    t1: "2 \<le> \<tau>1" "\<tau>1 < length (m_cumulative d)" "m_cumulative d ! \<tau>1 < m_threshold d"
      "\<forall>k. 2 \<le> k \<and> k < \<tau>1 \<longrightarrow> \<not> m_cumulative d ! k < m_threshold d"
      "t = descend (m_cumulative d) \<tau>1" "q = 1 - m_cumulative d ! t"
    by blast
  have "\<tau>1 = \<tau>0"
    using t1(1,3,4) assms(2-6) by (meson linorder_neqE_nat)
  with t1 tq show ?thesis by simp
qed

lemma absoluteThreshold_fallback:
  assumes "absoluteThreshold d = (tau, p)"
    and "\<forall>k. 2 \<le> k \<and> k < length (m_cumulative d) \<longrightarrow> \<not> m_cumulative d ! k < m_threshold d"
    and "2 < length (m_cumulative d)"
  shows "2 \<le> tau \<and> tau < length (m_cumulative d) \<and> p = 1 - m_cumulative d ! tau \<and>
     (\<forall>k. 2 \<le> k \<and> k < length (m_cumulative d) \<longrightarrow> m_cumulative d ! tau \<le> m_cumulative d ! k) \<and>
     (\<forall>k. 2 \<le> k \<and> k < tau \<longrightarrow> m_cumulative d ! tau < m_cumulative d ! k)"
proof -
  have none: "threshold_scan (m_cumulative d) (m_threshold d) 2 = None"
    using assms(2) by (simp add: threshold_scan_None)
  from minimum_scan_start [OF assms(3), of 0] obtain c where
    c: "minimum_scan (m_cumulative d) 2 None 0 = (Some (m_cumulative d ! c), c)"
      "2 \<le> c" "c < length (m_cumulative d)"
      "\<forall>k. 2 \<le> k \<and> k < length (m_cumulative d) \<longrightarrow> m_cumulative d ! c \<le> m_cumulative d ! k"
      "\<forall>k. 2 \<le> k \<and> k < c \<longrightarrow> m_cumulative d ! c < m_cumulative d ! k"
    by blast
  from assms(1) none c(1) have "tau = c" "p = 1 - m_cumulative d ! c"
    by (auto simp: absoluteThreshold_def)
  with c show ?thesis by simp
qed

lemma absoluteThreshold_sentinel:
  assumes "length (m_cumulative d) \<le> 2"
  shows "absoluteThreshold d = (0, 0)"
proof -
  have "threshold_scan (m_cumulative d) (m_threshold d) 2 = None"
    using assms by (simp add: threshold_scan_None)
  then show ?thesis
    using assms by (simp add: absoluteThreshold_def minimum_scan_empty)
qed

lemma absoluteThreshold_range:
  assumes "absoluteThreshold d = (tau, p)"
  shows "tau = 0 \<or> 2 \<le> tau \<and> tau < length (m_cumulative d)"
proof (cases "threshold_scan (m_cumulative d) (m_threshold d) 2")
  case None
  then have none: "\<forall>k. 2 \<le> k \<and> k < length (m_cumulative d) \<longrightarrow> \<not> m_cumulative d ! k < m_threshold d"
    by (simp add: threshold_scan_None)
  show ?thesis
  proof (cases "2 < length (m_cumulative d)")
    case True
    from absoluteThreshold_fallback [OF assms none True] show ?thesis by simp
  next
    case False
    then have "absoluteThreshold d = (0, 0)" by (intro absoluteThreshold_sentinel) simp
    with assms show ?thesis by simp
  qed
next
  case (Some r)
  with assms have "threshold_scan (m_cumulative d) (m_threshold d) 2 = Some (tau, p)"
    by (simp add: absoluteThreshold_def)
  from threshold_scan_Some [OF this] obtain \<tau>0 where
    "2 \<le> \<tau>0" "\<tau>0 < length (m_cumulative d)" "tau = descend (m_cumulative d) \<tau>0"
    by blast
  then show ?thesis
    using descend_ge [of \<tau>0 "m_cumulative d"] descend_less [of \<tau>0 "m_cumulative d"] by simp
qed

lemma cpp_processBuffer_sentinel:
  "fst (absoluteThreshold (analysed d0 x)) = 0 \<Longrightarrow>
     fst (cpp_processBuffer d0 (Some x) n) = empty_result"
  by (cases "absoluteThreshold (analysed d0 x)")
     (simp add: cpp_processBuffer_def reject_def analysed_def Let_def)

lemma dsp_processBuffer_sentinel:
  "fst (absoluteThreshold (analysed d0 x)) = 0 \<Longrightarrow>
     fst (dsp_processBuffer d0 (Some x) n) = empty_result"
  by (cases "absoluteThreshold (analysed d0 x)")
     (simp add: dsp_processBuffer_def reject_def analysed_def Let_def)

text \<open>
  Claim C2. When some lag from 2 on lies below the threshold, \<^verbatim>\<open>absoluteThreshold\<close> starts
  at the first such lag \<open>\<tau>0\<close>, walks along strictly smaller successors and stops at the
  local minimum, and leaves \<open>1 - d'(\<tau>)\<close> in \<open>probability\<close>. When no lag in the range
  lies below the threshold, it returns the first lag at which \<open>d'\<close> attains its minimum over
  the range, with \<open>1 -\<close> that minimum. When the range is empty it returns the sentinel 0,
  and a frame whose search returns the sentinel is reported invalid by both copies.
\<close>

theorem C2_lag_search:
  assumes "absoluteThreshold d = (tau, p)"
  shows
    "(\<forall>\<tau>0. 2 \<le> \<tau>0 \<and> \<tau>0 < length (m_cumulative d) \<and> m_cumulative d ! \<tau>0 < m_threshold d \<and>
           (\<forall>k. 2 \<le> k \<and> k < \<tau>0 \<longrightarrow> \<not> m_cumulative d ! k < m_threshold d) \<longrightarrow>
         \<tau>0 \<le> tau \<and> tau < length (m_cumulative d) \<and>
         (\<forall>k. \<tau>0 \<le> k \<and> k < tau \<longrightarrow> m_cumulative d ! (k + 1) < m_cumulative d ! k) \<and>
         (tau + 1 < length (m_cumulative d) \<longrightarrow>
            \<not> m_cumulative d ! (tau + 1) < m_cumulative d ! tau) \<and>
         p = 1 - m_cumulative d ! tau) \<and>
     ((\<forall>k. 2 \<le> k \<and> k < length (m_cumulative d) \<longrightarrow> \<not> m_cumulative d ! k < m_threshold d) \<and>
       2 < length (m_cumulative d) \<longrightarrow>
         2 \<le> tau \<and> tau < length (m_cumulative d) \<and>
         (\<forall>k. 2 \<le> k \<and> k < length (m_cumulative d) \<longrightarrow> m_cumulative d ! tau \<le> m_cumulative d ! k) \<and>
         (\<forall>k. 2 \<le> k \<and> k < tau \<longrightarrow> m_cumulative d ! tau < m_cumulative d ! k) \<and>
         p = 1 - m_cumulative d ! tau) \<and>
     (length (m_cumulative d) \<le> 2 \<longrightarrow> tau = 0 \<and> p = 0) \<and>
     (tau = 0 \<and> d = analysed d0 x \<longrightarrow>
         \<not> isValid (fst (cpp_processBuffer d0 (Some x) n)) \<and>
         \<not> isValid (fst (dsp_processBuffer d0 (Some x) n)))"
proof (intro conjI allI impI)
  fix \<tau>0
  assume h: "2 \<le> \<tau>0 \<and> \<tau>0 < length (m_cumulative d) \<and> m_cumulative d ! \<tau>0 < m_threshold d \<and>
           (\<forall>k. 2 \<le> k \<and> k < \<tau>0 \<longrightarrow> \<not> m_cumulative d ! k < m_threshold d)"
  then have t: "tau = descend (m_cumulative d) \<tau>0" and pp: "p = 1 - m_cumulative d ! tau"
    using absoluteThreshold_hit [OF assms refl, of \<tau>0] by simp_all
  show "\<tau>0 \<le> tau" by (simp add: t descend_ge)
  show "tau < length (m_cumulative d)" using h by (simp add: t descend_less)
  show "p = 1 - m_cumulative d ! tau" by (rule pp)
  show "\<not> m_cumulative d ! (tau + 1) < m_cumulative d ! tau" if "tau + 1 < length (m_cumulative d)"
    using that descend_stops [of "m_cumulative d" \<tau>0] by (simp add: t)
  show "m_cumulative d ! (k + 1) < m_cumulative d ! k" if "\<tau>0 \<le> k \<and> k < tau" for k
    using that descend_strict [of \<tau>0 k "m_cumulative d"] by (simp add: t)
next
  assume h: "(\<forall>k. 2 \<le> k \<and> k < length (m_cumulative d) \<longrightarrow> \<not> m_cumulative d ! k < m_threshold d) \<and>
       2 < length (m_cumulative d)"
  note fb = absoluteThreshold_fallback [OF assms conjunct1 [OF h] conjunct2 [OF h]]
  show "2 \<le> tau" "tau < length (m_cumulative d)" "p = 1 - m_cumulative d ! tau"
    using fb by simp_all
  show "m_cumulative d ! tau \<le> m_cumulative d ! k" if "2 \<le> k \<and> k < length (m_cumulative d)" for k
    using fb that by blast
  show "m_cumulative d ! tau < m_cumulative d ! k" if "2 \<le> k \<and> k < tau" for k
    using fb that by blast
next
  assume "length (m_cumulative d) \<le> 2"
  from absoluteThreshold_sentinel [OF this] assms show "tau = 0" "p = 0" by simp_all
next
  assume h: "tau = 0 \<and> d = analysed d0 x"
  then have z: "fst (absoluteThreshold (analysed d0 x)) = 0" using assms by simp
  show "\<not> isValid (fst (cpp_processBuffer d0 (Some x) n))"
    using cpp_processBuffer_sentinel [OF z] by (simp add: empty_result_def)
  show "\<not> isValid (fst (dsp_processBuffer d0 (Some x) n))"
    using dsp_processBuffer_sentinel [OF z] by (simp add: empty_result_def)
qed



theorem C2_lag_search_witness:
  "absoluteThreshold
     \<lparr>m_sampleRate = Finite 48000, m_bufferSize = 10, m_maxLag = 5, m_threshold = 1 / 10,
      m_difference = [0, 0, 0, 0, 0, 0],
      m_cumulative = [1, 1, 1 / 2, 1 / 20, 1 / 50, 3 / 10],
      m_lastResult = empty_result\<rparr> = (4, 49 / 50) \<and>
   (3 :: nat) \<le> 4 \<and> (4 :: nat) < length [1, 1, 1 / 2, 1 / 20, 1 / 50, 3 / 10 :: double] \<and>
   (49 / 50 :: double) = 1 - [1, 1, 1 / 2, 1 / 20, 1 / 50, 3 / 10] ! 4"
proof -
  let ?d = "\<lparr>m_sampleRate = Finite 48000, m_bufferSize = 10, m_maxLag = 5, m_threshold = 1 / 10,
      m_difference = [0, 0, 0, 0, 0, 0],
      m_cumulative = [1, 1, 1 / 2, 1 / 20, 1 / 50, 3 / 10],
      m_lastResult = empty_result\<rparr>"
  have run: "absoluteThreshold ?d = (4, 49 / 50)"
    by code_simp
  have two: "k = 2" if "2 \<le> k \<and> k < 3" for k :: nat using that by simp
  have before: "\<forall>k. 2 \<le> k \<and> k < 3 \<longrightarrow> \<not> m_cumulative ?d ! k < m_threshold ?d"
    using two by auto
  have first: "2 \<le> (3::nat) \<and> 3 < length (m_cumulative ?d) \<and>
      m_cumulative ?d ! 3 < m_threshold ?d \<and>
      (\<forall>k. 2 \<le> k \<and> k < 3 \<longrightarrow> \<not> m_cumulative ?d ! k < m_threshold ?d)"
    using before by simp
  note search = C2_lag_search [OF run, of undefined undefined undefined, THEN conjunct1, rule_format, OF first]
  have "3 \<le> (4::nat)" by (rule search [THEN conjunct1])
  moreover have "4 < length (m_cumulative ?d)" by (rule search [THEN conjunct2, THEN conjunct1])
  moreover have "49 / 50 = 1 - m_cumulative ?d ! 4"
    by (rule search [THEN conjunct2, THEN conjunct2, THEN conjunct2, THEN conjunct2])
  ultimately show ?thesis using run by simp
qed

subsection \<open>Which frames are valid\<close>

lemma analysed_fields [simp]:
  "m_sampleRate (analysed d x) = m_sampleRate d"
  "m_bufferSize (analysed d x) = m_bufferSize d"
  "m_maxLag (analysed d x) = m_maxLag d"
  "m_threshold (analysed d x) = m_threshold d"
  "length (m_cumulative (analysed d x)) = length (m_cumulative d)"
  "length (m_difference (analysed d x)) = length (m_difference d)"
  by (simp_all add: analysed_def)

lemma cumulative_at_one:
  assumes "detector_inv d" "1 \<le> m_maxLag d"
  shows "m_cumulative (analysed d x) ! 1 = 1"
proof -
  have "1 < length (m_cumulative (computeDifference d x))"
    using assms by (simp add: detector_inv_def)
  then show ?thesis
    using assms(2) by (simp add: analysed_def computeCumulative_nth)
qed

lemma descend_le: "cum ! descend cum tau \<le> cum ! tau"
proof (induction cum tau rule: descend.induct)
  case (1 cum tau)
  show ?case
  proof (cases "tau + 1 < length cum \<and> cum ! (tau + 1) < cum ! tau")
    case True
    then have "descend cum tau = descend cum (tau + 1)"
      by (subst descend.simps) simp
    with "1.IH" [OF True] True show ?thesis by simp
  next
    case False
    then have "descend cum tau = tau" by (subst descend.simps) auto
    then show ?thesis by simp
  qed
qed

lemma parabola_offset:
  fixes y0 y1 y2 :: real
  assumes "y1 < y0" "y1 \<le> y2"
  shows "- (1 / 2) \<le> (y0 - y2) / (2 * (y0 - 2 * y1 + y2))"
proof -
  have pos: "0 < y0 - 2 * y1 + y2" using assms by simp
  have "(y0 - y2) / (2 * (y0 - 2 * y1 + y2)) + 1 / 2 = (y0 - y1) / (y0 - 2 * y1 + y2)"
    using pos by (simp add: field_simps)
  moreover have "0 \<le> (y0 - y1) / (y0 - 2 * y1 + y2)"
    using pos assms by simp
  ultimately show ?thesis by linarith
qed

lemma cpp_parabolicInterpolation_lower:
  assumes "vals ! tau < vals ! (tau - 1)" "vals ! tau \<le> vals ! (tau + 1)"
  shows "real tau - 1 / 2 \<le> cpp_parabolicInterpolation tau vals"
  using parabola_offset [OF assms]
  by (simp add: cpp_parabolicInterpolation_def Let_def)

lemma parabola_offset_dsp:
  fixes y0 y1 y2 :: real
  assumes "y1 < y0" "y1 \<le> y2"
  shows "- (1 / 2) \<le> 1 / 2 * (y0 - y2) / ((y0 + y2) - 2 * y1)"
proof -
  have "(y0 + y2) - 2 * y1 = y0 - 2 * y1 + y2" by simp
  then have "1 / 2 * (y0 - y2) / ((y0 + y2) - 2 * y1) = 1 / 2 * (y0 - y2) / (y0 - 2 * y1 + y2)"
    by (simp only:)
  also have "\<dots> = (y0 - y2) / (2 * (y0 - 2 * y1 + y2))"
    by simp
  finally show ?thesis
    using parabola_offset [OF assms] by (simp only:)
qed

lemma dsp_parabolicInterpolation_lower:
  assumes "vals ! tau < vals ! (tau - 1)" "vals ! tau \<le> vals ! (tau + 1)"
  shows "real tau - 1 / 2 \<le> dsp_parabolicInterpolation tau vals"
proof -
  let ?off = "1 / 2 * (vals ! (tau - 1) - vals ! (tau + 1)) /
      ((vals ! (tau - 1) + vals ! (tau + 1)) - 2 * vals ! tau)"
  have "dsp_parabolicInterpolation tau vals = real tau \<or>
      dsp_parabolicInterpolation tau vals = real tau + ?off"
    by (auto simp: dsp_parabolicInterpolation_def Let_def)
  moreover have "- (1 / 2) \<le> ?off" by (rule parabola_offset_dsp [OF assms])
  ultimately show ?thesis by linarith
qed

lemma threshold_hit_positive:
  assumes "threshold_scan cum thr lo = Some (t, p)" "thr \<le> 1"
  shows "0 < p"
proof -
  from threshold_scan_Some [OF assms(1)] obtain \<tau>0 where
    "cum ! \<tau>0 < thr" "t = descend cum \<tau>0" "p = 1 - cum ! t"
    by blast
  with descend_le [of cum \<tau>0] assms(2) show ?thesis by simp
qed

lemma chosen_lag_shape:
  assumes run: "absoluteThreshold d = (tau, p)" and pos: "0 < p"
    and one: "m_cumulative d ! 1 = 1" and thr: "m_threshold d \<le> 1"
  shows "2 \<le> tau \<and> tau < length (m_cumulative d) \<and>
     m_cumulative d ! tau < m_cumulative d ! (tau - 1) \<and>
     (tau + 1 < length (m_cumulative d) \<longrightarrow> m_cumulative d ! tau \<le> m_cumulative d ! (tau + 1))"
proof (cases "threshold_scan (m_cumulative d) (m_threshold d) 2")
  case None
  then have none: "\<forall>k. 2 \<le> k \<and> k < length (m_cumulative d) \<longrightarrow> \<not> m_cumulative d ! k < m_threshold d"
    by (simp add: threshold_scan_None)
  have long: "2 < length (m_cumulative d)"
  proof (rule ccontr)
    assume "\<not> 2 < length (m_cumulative d)"
    then have "absoluteThreshold d = (0, 0)" by (intro absoluteThreshold_sentinel) simp
    with run pos show False by simp
  qed
  note fb = absoluteThreshold_fallback [OF run none long]
  have lt1: "m_cumulative d ! tau < 1" using fb pos by simp
  have prev: "m_cumulative d ! tau < m_cumulative d ! (tau - 1)"
  proof (cases "tau = 2")
    case True
    with lt1 one show ?thesis by simp
  next
    case False
    with fb have "2 \<le> tau - 1 \<and> tau - 1 < tau" by auto
    with fb show ?thesis by blast
  qed
  have nxt: "m_cumulative d ! tau \<le> m_cumulative d ! (tau + 1)" if "tau + 1 < length (m_cumulative d)"
    using fb that by auto
  from fb prev nxt show ?thesis by simp
next
  case (Some r)
  with run have some: "threshold_scan (m_cumulative d) (m_threshold d) 2 = Some (tau, p)"
    by (simp add: absoluteThreshold_def)
  from threshold_scan_Some [OF some] obtain \<tau>0 where
    t0: "2 \<le> \<tau>0" "\<tau>0 < length (m_cumulative d)" "m_cumulative d ! \<tau>0 < m_threshold d"
      "\<forall>k. 2 \<le> k \<and> k < \<tau>0 \<longrightarrow> \<not> m_cumulative d ! k < m_threshold d"
      "tau = descend (m_cumulative d) \<tau>0"
    by blast
  have ge: "\<tau>0 \<le> tau" by (simp add: t0 descend_ge)
  have lt: "tau < length (m_cumulative d)" using t0 by (simp add: descend_less)
  have prev: "m_cumulative d ! tau < m_cumulative d ! (tau - 1)"
  proof (cases "tau = \<tau>0")
    case True
    show ?thesis
    proof (cases "\<tau>0 = 2")
      case True
      with \<open>tau = \<tau>0\<close> t0(3) thr one show ?thesis by simp
    next
      case False
      with t0(1) have "2 \<le> \<tau>0 - 1 \<and> \<tau>0 - 1 < \<tau>0" by auto
      with t0(4) have "\<not> m_cumulative d ! (\<tau>0 - 1) < m_threshold d" by blast
      with t0(3) \<open>tau = \<tau>0\<close> show ?thesis by simp
    qed
  next
    case False
    with ge have "\<tau>0 \<le> tau - 1" "tau - 1 < descend (m_cumulative d) \<tau>0" "tau - 1 + 1 = tau"
      using t0(5) by auto
    with descend_strict [of \<tau>0 "tau - 1" "m_cumulative d"] show ?thesis by simp
  qed
  have nxt: "m_cumulative d ! tau \<le> m_cumulative d ! (tau + 1)" if "tau + 1 < length (m_cumulative d)"
    using that descend_stops [of "m_cumulative d" \<tau>0] t0(5) by simp
  from ge t0(1) lt prev nxt show ?thesis by simp
qed

lemma refined_lag_positive:
  assumes run: "absoluteThreshold d = (tau, p)" and pos: "0 < p"
    and one: "m_cumulative d ! 1 = 1" and thr: "m_threshold d \<le> 1"
    and len: "length (m_cumulative d) = m_maxLag d + 1"
  shows "0 < tau"
    and "0 < (if tau > 1 \<and> tau < m_maxLag d then cpp_parabolicInterpolation tau (m_cumulative d) else real tau)"
    and "0 < (if tau > 1 \<and> tau < m_maxLag d then dsp_parabolicInterpolation tau (m_cumulative d) else real tau)"
proof -
  note shape = chosen_lag_shape [OF run pos one thr]
  show "0 < tau" using shape by simp
  show "0 < (if tau > 1 \<and> tau < m_maxLag d then cpp_parabolicInterpolation tau (m_cumulative d) else real tau)"
  proof (cases "tau > 1 \<and> tau < m_maxLag d")
    case True
    then have "real tau - 1 / 2 \<le> cpp_parabolicInterpolation tau (m_cumulative d)"
      using shape len by (intro cpp_parabolicInterpolation_lower) simp_all
    with True show ?thesis by simp
  next
    case False
    with shape show ?thesis by simp
  qed
  show "0 < (if tau > 1 \<and> tau < m_maxLag d then dsp_parabolicInterpolation tau (m_cumulative d) else real tau)"
  proof (cases "tau > 1 \<and> tau < m_maxLag d")
    case True
    then have "real tau - 1 / 2 \<le> dsp_parabolicInterpolation tau (m_cumulative d)"
      using shape len by (intro dsp_parabolicInterpolation_lower) simp_all
    with True show ?thesis by simp
  next
    case False
    with shape show ?thesis by simp
  qed
qed

lemma cpp_processBuffer_unfold:
  assumes "m_bufferSize d \<le> n" "2 \<le> m_maxLag d" "\<not> le_zero (m_sampleRate d)"
    and "absoluteThreshold (analysed d x) = (tau, p)"
  shows "fst (cpp_processBuffer d (Some x) n) =
     (let refinedTau = (if tau > 1 \<and> tau < m_maxLag d
                        then cpp_parabolicInterpolation tau (m_cumulative (analysed d x))
                        else real tau)
      in if refinedTau \<le> 0 \<or> \<not> isfinite (m_sampleRate d) then empty_result
         else (let f = finite_value (m_sampleRate d) / refinedTau; m = 69 + 12 * log 2 (f / 440)
               in \<lparr>isValid = p > 0, frequency = f, midi = m, cents = (m - c_round m) * 100,
                   noteName = cpp_noteNameFromMidi (c_round m),
                   probability = cpp_clamp p 0 1\<rparr>))"
proof (cases "m_sampleRate d")
  case (Finite r)
  with assms show ?thesis
    by (auto simp: cpp_processBuffer_def reject_def analysed_def [symmetric] Let_def
        divide_le_0_iff cpp_midiFromFrequency_def)
qed (use assms in \<open>auto simp: cpp_processBuffer_def reject_def analysed_def [symmetric] Let_def\<close>)

lemma dsp_processBuffer_unfold:
  assumes "m_bufferSize d \<le> n" "2 \<le> m_maxLag d" "\<not> le_zero (m_sampleRate d)"
    and "absoluteThreshold (analysed d x) = (tau, p)"
  shows "fst (dsp_processBuffer d (Some x) n) =
     (let refinedTau = (if tau > 1 \<and> tau < m_maxLag d
                        then dsp_parabolicInterpolation tau (m_cumulative (analysed d x))
                        else real tau)
      in if refinedTau \<le> 0 \<or> \<not> isfinite (m_sampleRate d) then empty_result
         else (let f = finite_value (m_sampleRate d) / refinedTau; m = 69 + 12 * log 2 (f / 440)
               in \<lparr>isValid = p > 0, frequency = f, midi = m, cents = (m - c_round m) * 100,
                   noteName = dsp_noteNameFromMidi (Finite (c_round m)),
                   probability = std_clamp p 0 1\<rparr>))"
proof (cases "m_sampleRate d")
  case (Finite r)
  with assms show ?thesis
    by (auto simp: dsp_processBuffer_def reject_def analysed_def [symmetric] Let_def
        divide_le_0_iff dsp_midiFromFrequency_def)
qed (use assms in \<open>auto simp: dsp_processBuffer_def reject_def analysed_def [symmetric] Let_def\<close>)

lemma cpp_valid_iff:
  assumes "detector_inv d" "m_bufferSize d \<le> n" "2 \<le> m_maxLag d" "\<not> le_zero (m_sampleRate d)"
    and "m_threshold d \<le> 1"
  shows "isValid (fst (cpp_processBuffer d (Some x) n)) \<longleftrightarrow>
     isfinite (m_sampleRate d) \<and> 0 < snd (absoluteThreshold (analysed d x))"
proof -
  obtain tau p where run: "absoluteThreshold (analysed d x) = (tau, p)"
    by (cases "absoluteThreshold (analysed d x)") blast
  have one: "m_cumulative (analysed d x) ! 1 = 1"
    using assms by (intro cumulative_at_one) simp_all
  have len: "length (m_cumulative (analysed d x)) = m_maxLag (analysed d x) + 1"
    using assms(1) by (simp add: detector_inv_def)
  show ?thesis
  proof (cases "0 < p")
    case True
    have "0 < (if tau > 1 \<and> tau < m_maxLag d
        then cpp_parabolicInterpolation tau (m_cumulative (analysed d x)) else real tau)"
      using refined_lag_positive(2) [OF run True one _ len] assms(5) by simp
    with True show ?thesis
      unfolding cpp_processBuffer_unfold [OF assms(2-4) run]
      by (simp add: Let_def run empty_result_def)
  next
    case False
    then show ?thesis
      unfolding cpp_processBuffer_unfold [OF assms(2-4) run]
      by (simp add: Let_def run empty_result_def)
  qed
qed

lemma dsp_valid_iff:
  assumes "detector_inv d" "m_bufferSize d \<le> n" "2 \<le> m_maxLag d" "\<not> le_zero (m_sampleRate d)"
    and "m_threshold d \<le> 1"
  shows "isValid (fst (dsp_processBuffer d (Some x) n)) \<longleftrightarrow>
     isfinite (m_sampleRate d) \<and> 0 < snd (absoluteThreshold (analysed d x))"
proof -
  obtain tau p where run: "absoluteThreshold (analysed d x) = (tau, p)"
    by (cases "absoluteThreshold (analysed d x)") blast
  have one: "m_cumulative (analysed d x) ! 1 = 1"
    using assms by (intro cumulative_at_one) simp_all
  have len: "length (m_cumulative (analysed d x)) = m_maxLag (analysed d x) + 1"
    using assms(1) by (simp add: detector_inv_def)
  show ?thesis
  proof (cases "0 < p")
    case True
    have "0 < (if tau > 1 \<and> tau < m_maxLag d
        then dsp_parabolicInterpolation tau (m_cumulative (analysed d x)) else real tau)"
      using refined_lag_positive(3) [OF run True one _ len] assms(5) by simp
    with True show ?thesis
      unfolding dsp_processBuffer_unfold [OF assms(2-4) run]
      by (simp add: Let_def run empty_result_def)
  next
    case False
    then show ?thesis
      unfolding dsp_processBuffer_unfold [OF assms(2-4) run]
      by (simp add: Let_def run empty_result_def)
  qed
qed

lemma guard_rejects:
  assumes "samples = None \<or> n < m_bufferSize d \<or> m_maxLag d < 2 \<or> le_zero (m_sampleRate d)"
  shows "fst (cpp_processBuffer d samples n) = empty_result"
    and "fst (dsp_processBuffer d samples n) = empty_result"
  using assms
  by (auto simp: cpp_processBuffer_def dsp_processBuffer_def reject_def split: option.splits)



lemma analysed_threshold:
  "analysed (d\<lparr>m_threshold := t\<rparr>) x = (analysed d x)\<lparr>m_threshold := t\<rparr>"
  by (simp add: analysed_def computeDifference_def computeCumulativeMeanNormalized_def Let_def)

lemma probability_raise:
  assumes run1: "absoluteThreshold (d\<lparr>m_threshold := t1\<rparr>) = (tau1, p1)"
    and run2: "absoluteThreshold (d\<lparr>m_threshold := t2\<rparr>) = (tau2, p2)"
    and le: "t1 \<le> t2" "t2 \<le> 1" and pos: "0 < p1"
  shows "0 < p2"
proof (cases "threshold_scan (m_cumulative d) t2 2")
  case None
  then have "\<forall>k. 2 \<le> k \<and> k < length (m_cumulative d) \<longrightarrow> \<not> m_cumulative d ! k < t2"
    by (simp add: threshold_scan_None)
  with le(1) have "\<forall>k. 2 \<le> k \<and> k < length (m_cumulative d) \<longrightarrow> \<not> m_cumulative d ! k < t1"
    by (meson less_le_trans)
  then have "threshold_scan (m_cumulative d) t1 2 = None"
    by (simp add: threshold_scan_None)
  with None run1 run2 have "p1 = p2"
    by (simp add: absoluteThreshold_def)
  with pos show ?thesis by simp
next
  case (Some r)
  with run2 have "threshold_scan (m_cumulative d) t2 2 = Some (tau2, p2)"
    by (simp add: absoluteThreshold_def)
  then show ?thesis using le(2) by (rule threshold_hit_positive)
qed

lemma clamp_facts:
  "cpp_clamp t MIN_THRESHOLD MAX_THRESHOLD \<le> 1"
  "std_clamp t MIN_THRESHOLD MAX_THRESHOLD \<le> 1"
  "t1 \<le> t2 \<Longrightarrow> cpp_clamp t1 MIN_THRESHOLD MAX_THRESHOLD \<le> cpp_clamp t2 MIN_THRESHOLD MAX_THRESHOLD"
  "t1 \<le> t2 \<Longrightarrow> std_clamp t1 MIN_THRESHOLD MAX_THRESHOLD \<le> std_clamp t2 MIN_THRESHOLD MAX_THRESHOLD"
  by (auto simp: cpp_clamp_def std_clamp_def MIN_THRESHOLD_def MAX_THRESHOLD_def)

lemma cpp_threshold_monotone:
  assumes inv: "detector_inv d" and le: "c1 \<le> c2" "c2 \<le> 1"
  shows "isValid (fst (cpp_processBuffer (d\<lparr>m_threshold := c1\<rparr>) samples n)) \<longrightarrow>
         isValid (fst (cpp_processBuffer (d\<lparr>m_threshold := c2\<rparr>) samples n))"
proof (cases "samples = None \<or> n < m_bufferSize d \<or> m_maxLag d < 2 \<or> le_zero (m_sampleRate d)")
  case True
  then show ?thesis
    by (auto simp: cpp_processBuffer_def reject_def empty_result_def split: option.splits)
next
  case False
  let ?d1 = "d\<lparr>m_threshold := c1\<rparr>" and ?d2 = "d\<lparr>m_threshold := c2\<rparr>"
  have inv1: "detector_inv ?d1" and inv2: "detector_inv ?d2"
    using inv by (simp_all add: detector_inv_def)
  from False obtain x where x: "samples = Some x" by auto
  from False have g: "m_bufferSize d \<le> n" "2 \<le> m_maxLag d" "\<not> le_zero (m_sampleRate d)" by auto
  obtain tau1 p1 where run1: "absoluteThreshold ((analysed d x)\<lparr>m_threshold := c1\<rparr>) = (tau1, p1)"
    by (cases "absoluteThreshold ((analysed d x)\<lparr>m_threshold := c1\<rparr>)") blast
  obtain tau2 p2 where run2: "absoluteThreshold ((analysed d x)\<lparr>m_threshold := c2\<rparr>) = (tau2, p2)"
    by (cases "absoluteThreshold ((analysed d x)\<lparr>m_threshold := c2\<rparr>)") blast
  have raise: "0 < p1 \<Longrightarrow> 0 < p2"
    using probability_raise [OF run1 run2 le] .
  have v1: "isValid (fst (cpp_processBuffer ?d1 (Some x) n)) \<longleftrightarrow> isfinite (m_sampleRate d) \<and> 0 < p1"
    using cpp_valid_iff [OF inv1, of n x] g le run1 by (simp add: analysed_threshold)
  have v2: "isValid (fst (cpp_processBuffer ?d2 (Some x) n)) \<longleftrightarrow> isfinite (m_sampleRate d) \<and> 0 < p2"
    using cpp_valid_iff [OF inv2, of n x] g le run2 by (simp add: analysed_threshold)
  show ?thesis
    using v1 v2 raise x by simp
qed

lemma dsp_threshold_monotone:
  assumes inv: "detector_inv d" and le: "c1 \<le> c2" "c2 \<le> 1"
  shows "isValid (fst (dsp_processBuffer (d\<lparr>m_threshold := c1\<rparr>) samples n)) \<longrightarrow>
         isValid (fst (dsp_processBuffer (d\<lparr>m_threshold := c2\<rparr>) samples n))"
proof (cases "samples = None \<or> n < m_bufferSize d \<or> m_maxLag d < 2 \<or> le_zero (m_sampleRate d)")
  case True
  then show ?thesis
    by (auto simp: dsp_processBuffer_def reject_def empty_result_def split: option.splits)
next
  case False
  let ?d1 = "d\<lparr>m_threshold := c1\<rparr>" and ?d2 = "d\<lparr>m_threshold := c2\<rparr>"
  have inv1: "detector_inv ?d1" and inv2: "detector_inv ?d2"
    using inv by (simp_all add: detector_inv_def)
  from False obtain x where x: "samples = Some x" by auto
  from False have g: "m_bufferSize d \<le> n" "2 \<le> m_maxLag d" "\<not> le_zero (m_sampleRate d)" by auto
  obtain tau1 p1 where run1: "absoluteThreshold ((analysed d x)\<lparr>m_threshold := c1\<rparr>) = (tau1, p1)"
    by (cases "absoluteThreshold ((analysed d x)\<lparr>m_threshold := c1\<rparr>)") blast
  obtain tau2 p2 where run2: "absoluteThreshold ((analysed d x)\<lparr>m_threshold := c2\<rparr>) = (tau2, p2)"
    by (cases "absoluteThreshold ((analysed d x)\<lparr>m_threshold := c2\<rparr>)") blast
  have raise: "0 < p1 \<Longrightarrow> 0 < p2"
    using probability_raise [OF run1 run2 le] .
  have v1: "isValid (fst (dsp_processBuffer ?d1 (Some x) n)) \<longleftrightarrow> isfinite (m_sampleRate d) \<and> 0 < p1"
    using dsp_valid_iff [OF inv1, of n x] g le run1 by (simp add: analysed_threshold)
  have v2: "isValid (fst (dsp_processBuffer ?d2 (Some x) n)) \<longleftrightarrow> isfinite (m_sampleRate d) \<and> 0 < p2"
    using dsp_valid_iff [OF inv2, of n x] g le run2 by (simp add: analysed_threshold)
  show ?thesis
    using v1 v2 raise x by simp
qed

text \<open>
  Claim C6. For one detector and one frame, if the frame is classified valid with the threshold
  set to \<open>t1\<close> it is classified valid with every threshold \<open>t2 \<ge> t1\<close> (both clamped by
  \<^verbatim>\<open>setThreshold\<close> into the range from 0.001 to 0.999). A lag below the threshold always
  gives a positive probability and a positive refined lag, and when no lag is below the larger
  threshold none is below the smaller one, so both runs take the same fallback.
\<close>

theorem C6_threshold_monotone:
  assumes "detector_inv d" and "t1 \<le> t2"
  shows "(isValid (fst (cpp_processBuffer (cpp_setThreshold d t1) samples numSamples)) \<longrightarrow>
          isValid (fst (cpp_processBuffer (cpp_setThreshold d t2) samples numSamples))) \<and>
         (isValid (fst (dsp_processBuffer (dsp_setThreshold d t1) samples numSamples)) \<longrightarrow>
          isValid (fst (dsp_processBuffer (dsp_setThreshold d t2) samples numSamples)))"
  unfolding cpp_setThreshold_def dsp_setThreshold_def
  using cpp_threshold_monotone [OF assms(1) clamp_facts(3) [OF assms(2)] clamp_facts(1)]
    dsp_threshold_monotone [OF assms(1) clamp_facts(4) [OF assms(2)] clamp_facts(2)]
  by blast

theorem C6_threshold_monotone_witness:
  "isValid (fst (cpp_processBuffer
      (cpp_setThreshold (cpp_YinPitchDetector (Finite 880) 4 (1 / 10)) (1 / 100)) (Some [0, 1, 0, 1]) 4)) \<and>
   (1 / 100 :: double) \<le> 1 / 2 \<and>
   isValid (fst (cpp_processBuffer
      (cpp_setThreshold (cpp_YinPitchDetector (Finite 880) 4 (1 / 10)) (1 / 2)) (Some [0, 1, 0, 1]) 4))"
proof -
  let ?d = "cpp_YinPitchDetector (Finite 880) 4 (1 / 10)"
  have search: "0 < snd (absoluteThreshold (analysed (cpp_setThreshold ?d (1 / 100)) [0, 1, 0, 1]))"
    by code_simp
  have low: "isValid (fst (cpp_processBuffer (cpp_setThreshold ?d (1 / 100)) (Some [0, 1, 0, 1]) 4))"
    using search
    by (subst cpp_valid_iff)
       (simp_all add: detector_inv_def cpp_setThreshold_def cpp_YinPitchDetector_def
          cpp_clamp_def MIN_THRESHOLD_def MAX_THRESHOLD_def)
  have le: "(1 / 100 :: double) \<le> 1 / 2" by simp
  from C6_threshold_monotone [OF detector_inv_constructors(1) le, of "Finite 880" 4 "1 / 10" "Some [0, 1, 0, 1]" 4]
  have "isValid (fst (cpp_processBuffer (cpp_setThreshold ?d (1 / 2)) (Some [0, 1, 0, 1]) 4))"
    using low by blast
  with low le show ?thesis by simp
qed

lemma c_lround_of_int [simp]: "c_lround (of_int k) = k"
proof (cases "0 \<le> k")
  case True
  then have "\<lfloor>real_of_int k + 1 / 2\<rfloor> = k" by linarith
  with True show ?thesis by (simp add: c_lround_def)
next
  case False
  then have "\<lfloor>- real_of_int k + 1 / 2\<rfloor> = - k" by linarith
  with False show ?thesis by (simp add: c_lround_def)
qed

lemma c_lround_c_round [simp]: "c_lround (c_round x) = c_lround x"
  by (simp add: c_round_def)

subsection \<open>Note names\<close>

lemma int_rem_12: "int_rem a 12 = (if 0 \<le> a then a mod 12 else - ((- a) mod 12))"
proof (cases "0 < a")
  case True
  then have "int_rem a 12 = a - 12 * (a div 12)" by (simp add: int_rem_def int_div_def)
  also have "\<dots> = a mod 12" by (simp add: minus_mult_div_eq_mod)
  finally show ?thesis using True by simp
next
  case False
  show ?thesis
  proof (cases "a = 0")
    case True
    then show ?thesis by (simp add: int_rem_def int_div_def)
  next
    case False
    with \<open>\<not> 0 < a\<close> have neg: "a < 0" by simp
    then have "int_rem a 12 = a + 12 * ((- a) div 12)" by (simp add: int_rem_def int_div_def)
    also have "\<dots> = - ((- a) - 12 * ((- a) div 12))" by simp
    also have "\<dots> = - ((- a) mod 12)" by (simp only: minus_mult_div_eq_mod)
    finally show ?thesis using neg by simp
  qed
qed


lemma int_rem_12_mod: "(int_rem k 12 + 12) mod 12 = k mod 12"
proof (cases "0 \<le> k")
  case True
  then show ?thesis by (simp add: int_rem_12)
next
  case False
  then have "(int_rem k 12 + 12) mod 12 = (- ((- k) mod 12)) mod 12"
    by (simp add: int_rem_12)
  also have "\<dots> = (- (- k)) mod 12" by (rule mod_minus_eq)
  finally show ?thesis by simp
qed

lemma int_rem_12_lower: "0 \<le> int_rem k 12 + 12"
proof (cases "0 \<le> k")
  case True
  then show ?thesis by (simp add: int_rem_12)
next
  case False
  have "(- k) mod 12 < 12" by simp
  with False show ?thesis by (simp add: int_rem_12)
qed

lemma note_index: "int_rem (int_rem k 12 + 12) 12 = (k mod 12 + 12) mod 12"
proof -
  have "int_rem (int_rem k 12 + 12) 12 = (int_rem k 12 + 12) mod 12"
    using int_rem_12_lower [of k] by (simp only: int_rem_12 [of "int_rem k 12 + 12"] if_True)
  also have "\<dots> = k mod 12" by (rule int_rem_12_mod)
  finally show ?thesis by simp
qed

lemma note_index_again: "int_rem (int_rem (int_rem k 12 + 12) 12) 12 = (k mod 12 + 12) mod 12"
  unfolding note_index by (simp add: int_rem_12)

lemma int_div_12_nonneg: "0 \<le> k \<Longrightarrow> int_div k 12 = k div 12"
  by (simp add: int_div_def sgn_if)

lemma int_div_12_floor:
  assumes "0 \<le> k \<or> 12 dvd k"
  shows "int_div k 12 = k div 12"
proof (cases "0 \<le> k")
  case True
  then show ?thesis by (rule int_div_12_nonneg)
next
  case False
  with assms obtain j where j: "k = 12 * j" by (auto elim: dvdE)
  with False have "j < 0" by simp
  then show ?thesis
    by (simp add: int_div_def j sgn_if abs_mult)
qed

lemma cpp_noteName_eq: "cpp_noteNameFromMidi m = NOTE_NAMES ! nat ((c_lround m mod 12 + 12) mod 12)"
  by (simp add: cpp_noteNameFromMidi_def Let_def note_index_again)

lemma dsp_noteName_eq:
  "dsp_noteNameFromMidi (Finite m) =
     NOTE_NAMES ! nat ((c_lround m mod 12 + 12) mod 12) @ string_of_int (int_div (c_lround m) 12 - 1)"
  by (simp add: dsp_noteNameFromMidi_def Let_def note_index)

lemma note_index_in_range: "nat ((k mod 12 + 12) mod 12) < length NOTE_NAMES"
  by (simp add: NOTE_NAMES_def)

lemma string_of_int_4: "string_of_int 4 = ''4''"
  by (simp add: string_of_int_def string_of_nat.simps digit_char_def)

lemma cpp_valid_structure:
  assumes "isValid (fst (cpp_processBuffer d samples n))"
  shows "midi (fst (cpp_processBuffer d samples n)) =
           69 + 12 * log 2 (frequency (fst (cpp_processBuffer d samples n)) / 440) \<and>
         noteName (fst (cpp_processBuffer d samples n)) =
           cpp_noteNameFromMidi (c_round (midi (fst (cpp_processBuffer d samples n))))"
proof (cases "samples = None \<or> n < m_bufferSize d \<or> m_maxLag d < 2 \<or> le_zero (m_sampleRate d)")
  case True
  from guard_rejects(1) [OF this] assms show ?thesis
    by (simp add: empty_result_def)
next
  case False
  then obtain x where x: "samples = Some x" by auto
  from False have g: "m_bufferSize d \<le> n" "2 \<le> m_maxLag d" "\<not> le_zero (m_sampleRate d)" by auto
  obtain tau p where run: "absoluteThreshold (analysed d x) = (tau, p)"
    by (cases "absoluteThreshold (analysed d x)") blast
  show ?thesis
    using assms unfolding x cpp_processBuffer_unfold [OF g run]
    by (auto simp: Let_def empty_result_def split: if_splits)
qed

lemma dsp_valid_structure:
  assumes "isValid (fst (dsp_processBuffer d samples n))"
  shows "midi (fst (dsp_processBuffer d samples n)) =
           69 + 12 * log 2 (frequency (fst (dsp_processBuffer d samples n)) / 440) \<and>
         noteName (fst (dsp_processBuffer d samples n)) =
           dsp_noteNameFromMidi (Finite (c_round (midi (fst (dsp_processBuffer d samples n)))))"
proof (cases "samples = None \<or> n < m_bufferSize d \<or> m_maxLag d < 2 \<or> le_zero (m_sampleRate d)")
  case True
  from guard_rejects(2) [OF this] assms show ?thesis
    by (simp add: empty_result_def)
next
  case False
  then obtain x where x: "samples = Some x" by auto
  from False have g: "m_bufferSize d \<le> n" "2 \<le> m_maxLag d" "\<not> le_zero (m_sampleRate d)" by auto
  obtain tau p where run: "absoluteThreshold (analysed d x) = (tau, p)"
    by (cases "absoluteThreshold (analysed d x)") blast
  show ?thesis
    using assms unfolding x dsp_processBuffer_unfold [OF g run]
    by (auto simp: Let_def empty_result_def split: if_splits)
qed

lemma c_lround_69: "c_lround 69 = 69"
  using c_lround_of_int [of 69] by simp


lemma frame_440_search:
  "absoluteThreshold (analysed (cpp_YinPitchDetector (Finite 880) 4 (1 / 10)) [0, 1, 0, 1]) = (2, 1)"
  "absoluteThreshold (analysed (dsp_YinPitchDetector (Finite 880) 4 (1 / 10)) [0, 1, 0, 1]) = (2, 1)"
  by code_simp+

lemma frame_440_cpp:
  "fst (cpp_processBuffer (cpp_YinPitchDetector (Finite 880) 4 (1 / 10)) (Some [0, 1, 0, 1]) 4) =
     \<lparr>isValid = True, frequency = 440, midi = 69, cents = 0, noteName = ''A'', probability = 1\<rparr>"
proof -
  have cfg: "m_bufferSize (cpp_YinPitchDetector (Finite 880) 4 (1 / 10)) \<le> 4"
    "2 \<le> m_maxLag (cpp_YinPitchDetector (Finite 880) 4 (1 / 10))"
    "\<not> le_zero (m_sampleRate (cpp_YinPitchDetector (Finite 880) 4 (1 / 10)))"
    by (simp_all add: cpp_YinPitchDetector_def)
  have "c_round 69 = 69" using c_lround_69 by (simp add: c_round_def)
  then show ?thesis
    unfolding cpp_processBuffer_unfold [OF cfg frame_440_search(1)]
    by (simp add: cpp_YinPitchDetector_def cpp_noteName_eq c_lround_69 NOTE_NAMES_def
        cpp_clamp_def)
qed

lemma frame_440_dsp:
  "fst (dsp_processBuffer (dsp_YinPitchDetector (Finite 880) 4 (1 / 10)) (Some [0, 1, 0, 1]) 4) =
     \<lparr>isValid = True, frequency = 440, midi = 69, cents = 0, noteName = ''A4'', probability = 1\<rparr>"
proof -
  have cfg: "m_bufferSize (dsp_YinPitchDetector (Finite 880) 4 (1 / 10)) \<le> 4"
    "2 \<le> m_maxLag (dsp_YinPitchDetector (Finite 880) 4 (1 / 10))"
    "\<not> le_zero (m_sampleRate (dsp_YinPitchDetector (Finite 880) 4 (1 / 10)))"
    by (simp_all add: dsp_YinPitchDetector_def)
  have "c_round 69 = 69" using c_lround_69 by (simp add: c_round_def)
  then show ?thesis
    unfolding dsp_processBuffer_unfold [OF cfg frame_440_search(2)]
    by (simp add: dsp_YinPitchDetector_def dsp_noteName_eq c_lround_69 NOTE_NAMES_def
        std_clamp_def int_div_def string_of_int_4)
qed

text \<open>
  Below MIDI number 0 the dsp copy divides with truncation towards zero, so its octave is not
  the floor: at a sample rate of 13.75 Hz the frame below is detected at 6.875 Hz, MIDI number
  \<open>-3\<close>, and named \<open>A-1\<close>, where \<open>floor(-3 / 12) - 1 = -2\<close>.
\<close>

lemma log2_64th: "log 2 (1 / 64) = - 6"
  using log_powr_cancel [of 2 "- 6"] by (simp add: powr_minus_divide)

lemma dsp_octave_below_midi_zero:
  "fst (dsp_processBuffer (dsp_YinPitchDetector (Finite (55 / 4)) 4 (1 / 10)) (Some [0, 1, 0, 1]) 4) =
     \<lparr>isValid = True, frequency = 55 / 8, midi = - 3, cents = 0, noteName = ''A-1'',
      probability = 1\<rparr>"
proof -
  have cfg: "m_bufferSize (dsp_YinPitchDetector (Finite (55 / 4)) 4 (1 / 10)) \<le> 4"
    "2 \<le> m_maxLag (dsp_YinPitchDetector (Finite (55 / 4)) 4 (1 / 10))"
    "\<not> le_zero (m_sampleRate (dsp_YinPitchDetector (Finite (55 / 4)) 4 (1 / 10)))"
    by (simp_all add: dsp_YinPitchDetector_def)
  have search: "absoluteThreshold (analysed (dsp_YinPitchDetector (Finite (55 / 4)) 4 (1 / 10)) [0, 1, 0, 1]) = (2, 1)"
    by code_simp
  have r: "c_lround (- 3) = - 3" using c_lround_of_int [of "- 3"] by simp
  then have "c_round (- 3) = - 3" by (simp add: c_round_def)
  then show ?thesis
    unfolding dsp_processBuffer_unfold [OF cfg search]
    by (simp add: dsp_YinPitchDetector_def dsp_noteName_eq r NOTE_NAMES_def log2_64th
        std_clamp_def int_div_def string_of_int_def string_of_nat.simps digit_char_def)
qed

lemma claimed_name_of_minus_3:
  "NOTE_NAMES ! nat (((- 3) mod 12 + 12) mod 12) @ string_of_int (\<lfloor>real_of_int (- 3) / 12\<rfloor> - 1) = ''A-2''"
proof -
  have "\<lfloor>real_of_int (- 3) / 12\<rfloor> = (- 3) div 12"
    using floor_divide_of_int_eq [of "- 3" 12] by simp
  then have "\<lfloor>real_of_int (- 3) / 12\<rfloor> - 1 = - 2"
    by simp
  then show ?thesis
    by (simp add: NOTE_NAMES_def string_of_int_def string_of_nat.simps digit_char_def)
qed



subsection \<open>The two copies compared\<close>

lemma clamp_copies_agree: "std_clamp t MIN_THRESHOLD MAX_THRESHOLD = cpp_clamp t MIN_THRESHOLD MAX_THRESHOLD"
  by (simp add: std_clamp_def cpp_clamp_def MIN_THRESHOLD_def MAX_THRESHOLD_def)

lemma cumulative_loop_initial:
  assumes "length c1 = maxLag + 1" "length c2 = maxLag + 1" "c1 ! 0 = c2 ! 0"
  shows "cumulative_loop diff maxLag 1 rs c1 = cumulative_loop diff maxLag 1 rs c2"
proof (rule nth_equalityI)
  show "length (cumulative_loop diff maxLag 1 rs c1) = length (cumulative_loop diff maxLag 1 rs c2)"
    using assms by simp
  fix k assume "k < length (cumulative_loop diff maxLag 1 rs c1)"
  then have k: "k < length c1" "k < length c2" "k \<le> maxLag" using assms by simp_all
  show "cumulative_loop diff maxLag 1 rs c1 ! k = cumulative_loop diff maxLag 1 rs c2 ! k"
  proof (cases "k = 0")
    case True
    with k assms(3) show ?thesis by (simp add: cumulative_loop_nth)
  next
    case False
    with k show ?thesis by (simp add: cumulative_loop_nth)
  qed
qed

lemma same_analysis:
  "analysed (dsp_YinPitchDetector sr n t) x = analysed (cpp_YinPitchDetector sr n t) x"
proof -
  have "cumulative_loop diff (n div 2) 1 0 ((replicate (n div 2 + 1) 1)[0 := 1]) =
        cumulative_loop diff (n div 2) 1 0 ((replicate (n div 2 + 1) 0)[0 := 1])" for diff
    by (rule cumulative_loop_initial) simp_all
  then show ?thesis
    by (simp add: analysed_def computeDifference_def computeCumulativeMeanNormalized_def Let_def
        dsp_YinPitchDetector_def cpp_YinPitchDetector_def clamp_copies_agree)
qed

lemma cpp_result_summary:
  assumes "detector_inv d" "m_bufferSize d \<le> n" "2 \<le> m_maxLag d" "\<not> le_zero (m_sampleRate d)"
    and "m_threshold d \<le> 1" and run: "absoluteThreshold (analysed d x) = (tau, p)"
  shows "isValid (fst (cpp_processBuffer d (Some x) n)) = (isfinite (m_sampleRate d) \<and> 0 < p) \<and>
         probability (fst (cpp_processBuffer d (Some x) n)) =
           (if isfinite (m_sampleRate d) \<and> 0 < p then min p 1 else 0)"
proof -
  have one: "m_cumulative (analysed d x) ! 1 = 1"
    using assms by (intro cumulative_at_one) simp_all
  have len: "length (m_cumulative (analysed d x)) = m_maxLag (analysed d x) + 1"
    using assms(1) by (simp add: detector_inv_def)
  show ?thesis
  proof (cases "0 < p")
    case True
    have "0 < (if tau > 1 \<and> tau < m_maxLag d
        then cpp_parabolicInterpolation tau (m_cumulative (analysed d x)) else real tau)"
      using refined_lag_positive(2) [OF run True one _ len] assms(5) by simp
    with True show ?thesis
      unfolding cpp_processBuffer_unfold [OF assms(2-4) run]
      by (auto simp: Let_def cpp_clamp_def empty_result_def)
  next
    case False
    then have "p \<le> 0" by simp
    then show ?thesis
      unfolding cpp_processBuffer_unfold [OF assms(2-4) run]
      by (auto simp: Let_def empty_result_def cpp_clamp_def)
  qed
qed

lemma dsp_result_summary:
  assumes "detector_inv d" "m_bufferSize d \<le> n" "2 \<le> m_maxLag d" "\<not> le_zero (m_sampleRate d)"
    and "m_threshold d \<le> 1" and run: "absoluteThreshold (analysed d x) = (tau, p)"
  shows "isValid (fst (dsp_processBuffer d (Some x) n)) = (isfinite (m_sampleRate d) \<and> 0 < p) \<and>
         probability (fst (dsp_processBuffer d (Some x) n)) =
           (if isfinite (m_sampleRate d) \<and> 0 < p then min p 1 else 0)"
proof -
  have one: "m_cumulative (analysed d x) ! 1 = 1"
    using assms by (intro cumulative_at_one) simp_all
  have len: "length (m_cumulative (analysed d x)) = m_maxLag (analysed d x) + 1"
    using assms(1) by (simp add: detector_inv_def)
  show ?thesis
  proof (cases "0 < p")
    case True
    have "0 < (if tau > 1 \<and> tau < m_maxLag d
        then dsp_parabolicInterpolation tau (m_cumulative (analysed d x)) else real tau)"
      using refined_lag_positive(3) [OF run True one _ len] assms(5) by simp
    with True show ?thesis
      unfolding dsp_processBuffer_unfold [OF assms(2-4) run]
      by (auto simp: Let_def std_clamp_def empty_result_def)
  next
    case False
    then have "p \<le> 0" by simp
    then show ?thesis
      unfolding dsp_processBuffer_unfold [OF assms(2-4) run]
      by (auto simp: Let_def empty_result_def std_clamp_def)
  qed
qed

lemma string_of_nat_last:
  "string_of_nat n \<noteq> [] \<and> last (string_of_nat n) \<in> set ''0123456789''"
proof -
  have "n mod 10 < length ''0123456789''" by simp
  then have d: "digit_char (n mod 10) \<in> set ''0123456789''"
    unfolding digit_char_def by (rule nth_mem)
  show ?thesis
  proof (cases "n < 10")
    case True
    with d show ?thesis by (subst (1 2) string_of_nat.simps) simp
  next
    case False
    with d show ?thesis by (subst (1 2) string_of_nat.simps) simp
  qed
qed

lemma string_of_int_last:
  "string_of_int i \<noteq> [] \<and> last (string_of_int i) \<in> set ''0123456789''"
  using string_of_nat_last by (simp add: string_of_int_def)

lemma note_name_last:
  assumes "i < 12"
  shows "NOTE_NAMES ! i \<noteq> [] \<and> last (NOTE_NAMES ! i) \<notin> set ''0123456789''"
proof -
  have "\<forall>s \<in> set NOTE_NAMES. s \<noteq> [] \<and> last s \<notin> set ''0123456789''"
    by (simp add: NOTE_NAMES_def)
  moreover have "NOTE_NAMES ! i \<in> set NOTE_NAMES"
    using assms by (intro nth_mem) (simp add: NOTE_NAMES_def)
  ultimately show ?thesis by blast
qed

lemma note_names_differ: "cpp_noteNameFromMidi m \<noteq> dsp_noteNameFromMidi (Finite m')"
proof -
  have i: "nat ((c_lround m mod 12 + 12) mod 12) < 12" by simp
  have "last (dsp_noteNameFromMidi (Finite m')) \<in> set ''0123456789''"
    using string_of_int_last by (simp add: dsp_noteName_eq)
  moreover have "last (cpp_noteNameFromMidi m) \<notin> set ''0123456789''"
    using note_name_last [OF i] by (simp add: cpp_noteName_eq)
  ultimately show ?thesis by metis
qed

lemma copies_agree_without_interpolation:
  assumes g: "m_bufferSize d \<le> n" "2 \<le> m_maxLag d" "\<not> le_zero (m_sampleRate d)"
    and run: "absoluteThreshold (analysed d x) = (tau, p)"
    and nt: "\<not> (1 < tau \<and> tau < m_maxLag d)"
  shows "frequency (fst (cpp_processBuffer d (Some x) n)) = frequency (fst (dsp_processBuffer d (Some x) n)) \<and>
         midi (fst (cpp_processBuffer d (Some x) n)) = midi (fst (dsp_processBuffer d (Some x) n)) \<and>
         cents (fst (cpp_processBuffer d (Some x) n)) = cents (fst (dsp_processBuffer d (Some x) n))"
proof -
  have r: "(if tau > 1 \<and> tau < m_maxLag d
            then cpp_parabolicInterpolation tau (m_cumulative (analysed d x)) else real tau) = real tau"
    "(if tau > 1 \<and> tau < m_maxLag d
      then dsp_parabolicInterpolation tau (m_cumulative (analysed d x)) else real tau) = real tau"
    using nt by auto
  show ?thesis
    unfolding cpp_processBuffer_unfold [OF g run] dsp_processBuffer_unfold [OF g run] r
    by (simp add: Let_def)
qed


text \<open>
  The claim as it was stated fails on the frame below, at 48000 Hz with a buffer of 6
  samples. Both copies find the lag 2 and interpolate it. The curvature there is about
  \<open>3.8 * 10\<^sup>-\<^sup>1\<^sup>4\<close>: the cpp copy takes the parabola for flat and reports 24000 Hz, the dsp
  copy moves the lag to about 2.25 and reports a lower frequency; and the note names differ.
\<close>

lemma tiny_curvature_search:
  "absoluteThreshold (analysed (cpp_YinPitchDetector (Finite 48000) 6 (15 / 100))
     [0, 1, 1, 1, 1 + 1 / 2 ^ 22, 1]) = (2, 1 / 35184372088835)"
  by code_simp

lemma tiny_curvature_buffer:
  "m_cumulative (analysed (cpp_YinPitchDetector (Finite 48000) 6 (15 / 100))
     [0, 1, 1, 1, 1 + 1 / 2 ^ 22, 1]) =
   [1, 1, 35184372088834 / 35184372088835, 52776558133251 / 52776558133252]"
  by code_simp

lemma tiny_curvature_cpp:
  "isValid (fst (cpp_processBuffer (cpp_YinPitchDetector (Finite 48000) 6 (15 / 100))
      (Some [0, 1, 1, 1, 1 + 1 / 2 ^ 22, 1]) 6)) \<and>
   frequency (fst (cpp_processBuffer (cpp_YinPitchDetector (Finite 48000) 6 (15 / 100))
      (Some [0, 1, 1, 1, 1 + 1 / 2 ^ 22, 1]) 6)) = 24000"
proof -
  have cfg: "m_bufferSize (cpp_YinPitchDetector (Finite 48000) 6 (15 / 100)) \<le> 6"
    "2 \<le> m_maxLag (cpp_YinPitchDetector (Finite 48000) 6 (15 / 100))"
    "\<not> le_zero (m_sampleRate (cpp_YinPitchDetector (Finite 48000) 6 (15 / 100)))"
    by (simp_all add: cpp_YinPitchDetector_def)
  have i: "cpp_parabolicInterpolation 2
      [1, 1, 35184372088834 / 35184372088835, 52776558133251 / 52776558133252] = 2"
    by (simp add: cpp_parabolicInterpolation_def Let_def)
  show ?thesis
    unfolding cpp_processBuffer_unfold [OF cfg tiny_curvature_search] tiny_curvature_buffer
    by (simp add: Let_def i cpp_YinPitchDetector_def)
qed

lemma tiny_curvature_dsp:
  "isValid (fst (dsp_processBuffer (dsp_YinPitchDetector (Finite 48000) 6 (15 / 100))
      (Some [0, 1, 1, 1, 1 + 1 / 2 ^ 22, 1]) 6)) \<and>
   frequency (fst (dsp_processBuffer (dsp_YinPitchDetector (Finite 48000) 6 (15 / 100))
      (Some [0, 1, 1, 1, 1 + 1 / 2 ^ 22, 1]) 6)) = 48000 / (316659348799511 / 140737488355338)"
proof -
  have cfg: "m_bufferSize (dsp_YinPitchDetector (Finite 48000) 6 (15 / 100)) \<le> 6"
    "2 \<le> m_maxLag (dsp_YinPitchDetector (Finite 48000) 6 (15 / 100))"
    "\<not> le_zero (m_sampleRate (dsp_YinPitchDetector (Finite 48000) 6 (15 / 100)))"
    by (simp_all add: dsp_YinPitchDetector_def)
  have i: "dsp_parabolicInterpolation 2
      [1, 1, 35184372088834 / 35184372088835, 52776558133251 / 52776558133252] =
      316659348799511 / 140737488355338"
    by (simp add: dsp_parabolicInterpolation_def Let_def)
  have search: "absoluteThreshold (analysed (dsp_YinPitchDetector (Finite 48000) 6 (15 / 100))
     [0, 1, 1, 1, 1 + 1 / 2 ^ 22, 1]) = (2, 1 / 35184372088835)"
    by (simp only: same_analysis tiny_curvature_search)
  show ?thesis
    unfolding dsp_processBuffer_unfold [OF cfg search] same_analysis tiny_curvature_buffer
    by (simp add: Let_def i dsp_YinPitchDetector_def)
qed



section \<open>Properties of the ring buffer\<close>

lemma ring_index:
  fixes a b :: size_t
  assumes "k < 64"
  shows "unat ((a + b) AND (2 ^ k - 1)) = (unat a + unat b) mod 2 ^ k"
proof -
  have "(2 ^ k - 1 :: size_t) = mask k" by (simp add: mask_eq_exp_minus_1)
  then have "unat ((a + b) AND (2 ^ k - 1)) = unat (take_bit k (a + b))"
    by (simp add: take_bit_eq_mask)
  also have "\<dots> = take_bit k (unat (a + b))"
    by (rule unsigned_take_bit_eq)
  also have "\<dots> = unat (a + b) mod 2 ^ k"
    by (rule take_bit_eq_mod)
  also have "\<dots> = ((unat a + unat b) mod 2 ^ 64) mod 2 ^ k"
    by (simp add: unat_word_ariths)
  also have "\<dots> = (unat a + unat b) mod 2 ^ k"
  proof -
    have "(2::nat) ^ k dvd 2 ^ 64" using assms by (intro le_imp_power_dvd) simp
    then show ?thesis by (rule mod_mod_cancel)
  qed
  finally show ?thesis .
qed

lemma write_loop_fst:
  "written \<le> toWrite \<Longrightarrow> fst (write_loop m w xs toWrite written buf) = toWrite"
proof (induction m w xs toWrite written buf rule: write_loop.induct)
  case (1 maskv localWrite data toWrite written buffer)
  show ?case
  proof (cases "written < toWrite")
    case True
    then have "unat (written + 1) = Suc (unat written)" by (rule unat_increment)
    with True have "written + 1 \<le> toWrite" by (simp add: word_less_nat_alt word_le_nat_alt)
    with "1.IH" [OF True] True show ?thesis by (subst write_loop.simps) simp
  next
    case False
    with "1.prems" have "written = toWrite" by simp
    then show ?thesis by (subst write_loop.simps) simp
  qed
qed

lemma write_loop_length [simp]:
  "length (snd (write_loop m w xs toWrite written buf)) = length buf"
proof (induction m w xs toWrite written buf rule: write_loop.induct)
  case (1 maskv localWrite data toWrite written buffer)
  show ?case
  proof (cases "written < toWrite")
    case True
    with "1.IH" [OF True] show ?thesis by (subst write_loop.simps) simp
  next
    case False
    then show ?thesis by (subst write_loop.simps) simp
  qed
qed

lemma write_loop_untouched:
  assumes "\<forall>i. unat written \<le> i \<and> i < unat toWrite \<longrightarrow> j \<noteq> unat ((w + of_nat i) AND m)"
  shows "snd (write_loop m w xs toWrite written buf) ! j = buf ! j"
  using assms
proof (induction m w xs toWrite written buf rule: write_loop.induct)
  case (1 maskv localWrite data toWrite written buffer)
  show ?case
  proof (cases "written < toWrite")
    case True
    then have suc: "unat (written + 1) = Suc (unat written)" by (rule unat_increment)
    have here: "j \<noteq> unat ((localWrite + written) AND maskv)"
      using "1.prems" True by (auto simp: word_less_nat_alt dest!: spec [of _ "unat written"])
    have rest: "\<forall>i. unat (written + 1) \<le> i \<and> i < unat toWrite \<longrightarrow>
        j \<noteq> unat ((localWrite + of_nat i) AND maskv)"
      using "1.prems" suc by auto
    from "1.IH" [OF True rest] here True show ?thesis
      by (subst write_loop.simps) simp
  next
    case False
    then show ?thesis by (subst write_loop.simps) simp
  qed
qed

lemma write_loop_written:
  assumes "unat written \<le> i" "i < unat toWrite"
    and "unat ((w + of_nat i) AND m) < length buf"
    and "\<forall>i'. i < i' \<and> i' < unat toWrite \<longrightarrow>
           unat ((w + of_nat i) AND m) \<noteq> unat ((w + of_nat i') AND m)"
  shows "snd (write_loop m w xs toWrite written buf) ! unat ((w + of_nat i) AND m) = xs ! i"
  using assms
proof (induction m w xs toWrite written buf rule: write_loop.induct)
  case (1 maskv localWrite data toWrite written buffer)
  from "1.prems" have less: "written < toWrite" by (simp add: word_less_nat_alt)
  then have suc: "unat (written + 1) = Suc (unat written)" by (rule unat_increment)
  let ?buf' = "buffer[unat ((localWrite + written) AND maskv) := data ! unat written]"
  have unfold: "write_loop maskv localWrite data toWrite written buffer =
      write_loop maskv localWrite data toWrite (written + 1) ?buf'"
    using less by (subst write_loop.simps) simp
  show ?case
  proof (cases "i = unat written")
    case True
    then have w: "of_nat i = written" by simp
    have "snd (write_loop maskv localWrite data toWrite (written + 1) ?buf') !
        unat ((localWrite + of_nat i) AND maskv) = ?buf' ! unat ((localWrite + of_nat i) AND maskv)"
      using "1.prems"(4) suc True by (intro write_loop_untouched) auto
    also have "\<dots> = data ! i"
      using "1.prems"(3) True w by simp
    finally show ?thesis unfolding unfold .
  next
    case False
    with "1.prems"(1) suc have ge: "unat (written + 1) \<le> i" by simp
    have len: "unat ((localWrite + of_nat i) AND maskv) < length ?buf'"
      using "1.prems"(3) by simp
    show ?thesis
      unfolding unfold using "1.IH" [OF less ge "1.prems"(2) len "1.prems"(4)] .
  qed
qed

lemma read_loop_fst:
  "nread \<le> toRead \<Longrightarrow> fst (read_loop m r buf toRead nread dst) = toRead"
proof (induction m r buf toRead nread dst rule: read_loop.induct)
  case (1 maskv localRead buffer toRead nread dst)
  show ?case
  proof (cases "nread < toRead")
    case True
    then have "unat (nread + 1) = Suc (unat nread)" by (rule unat_increment)
    with True have "nread + 1 \<le> toRead" by (simp add: word_less_nat_alt word_le_nat_alt)
    with "1.IH" [OF True] True show ?thesis by (subst read_loop.simps) simp
  next
    case False
    with "1.prems" have "nread = toRead" by simp
    then show ?thesis by (subst read_loop.simps) simp
  qed
qed

lemma read_loop_length [simp]:
  "length (snd (read_loop m r buf toRead nread dst)) = length dst"
proof (induction m r buf toRead nread dst rule: read_loop.induct)
  case (1 maskv localRead buffer toRead nread dst)
  show ?case
  proof (cases "nread < toRead")
    case True
    with "1.IH" [OF True] show ?thesis by (subst read_loop.simps) simp
  next
    case False
    then show ?thesis by (subst read_loop.simps) simp
  qed
qed

lemma read_loop_nth:
  assumes "i < length dst"
  shows "snd (read_loop m r buf toRead nread dst) ! i =
     (if unat nread \<le> i \<and> i < unat toRead then buf ! unat ((r + of_nat i) AND m) else dst ! i)"
  using assms
proof (induction m r buf toRead nread dst rule: read_loop.induct)
  case (1 maskv localRead buffer toRead nread dst)
  show ?case
  proof (cases "nread < toRead")
    case True
    then have suc: "unat (nread + 1) = Suc (unat nread)" by (rule unat_increment)
    let ?dst' = "dst[unat nread := buffer ! unat ((localRead + nread) AND maskv)]"
    have unfold: "read_loop maskv localRead buffer toRead nread dst =
        read_loop maskv localRead buffer toRead (nread + 1) ?dst'"
      using True by (subst read_loop.simps) simp
    have IH: "snd (read_loop maskv localRead buffer toRead (nread + 1) ?dst') ! i =
        (if unat (nread + 1) \<le> i \<and> i < unat toRead
         then buffer ! unat ((localRead + of_nat i) AND maskv) else ?dst' ! i)"
      using "1.IH" [OF True] "1.prems" by simp
    show ?thesis
    proof (cases "i = unat nread")
      case True
      then have "of_nat i = nread" by simp
      with True \<open>nread < toRead\<close> "1.prems" show ?thesis
        unfolding unfold IH suc by (simp add: word_less_nat_alt)
    next
      case False
      with "1.prems" show ?thesis
        unfolding unfold IH suc by auto
    qed
  next
    case False
    then show ?thesis by (subst read_loop.simps) (auto simp: word_less_nat_alt)
  qed
qed

lemma unat_power2:
  assumes "k < 64"
  shows "unat (2 ^ k :: size_t) = 2 ^ k"
proof -
  have "(2 ^ k :: size_t) = word_of_nat (2 ^ k)" by simp
  then have "unat (2 ^ k :: size_t) = 2 ^ k mod 2 ^ LENGTH(64)"
    by (simp only: unat_of_nat)
  moreover have "(2::nat) ^ k < 2 ^ 64" using assms by (intro power_strict_increasing) simp_all
  ultimately show ?thesis by simp
qed

lemma nextPowerOfTwo_loop_power:
  assumes "nextPowerOfTwo_loop v value = Some c"
  shows "value \<noteq> 0 \<longrightarrow> (v = 0 \<or> (\<exists>j<64. v = 2 ^ j)) \<longrightarrow> (\<exists>k<64. c = 2 ^ k)"
proof (rule nextPowerOfTwo_loop.raw_induct
    [where P = "\<lambda>v value c. value \<noteq> 0 \<longrightarrow> (v = 0 \<or> (\<exists>j<64. v = 2 ^ j)) \<longrightarrow> (\<exists>k<64. c = 2 ^ k)",
     OF _ assms])
  fix loop :: "size_t \<Rightarrow> size_t \<Rightarrow> size_t option" and v bound va :: size_t
  assume IH: "\<And>v' b y. loop v' b = Some y \<Longrightarrow>
      b \<noteq> 0 \<longrightarrow> (v' = 0 \<or> (\<exists>j<64. v' = 2 ^ j)) \<longrightarrow> (\<exists>k<64. y = 2 ^ k)"
    and eq: "(if v < bound then loop (push_bit 1 v) bound else Some v) = Some va"
  show "bound \<noteq> 0 \<longrightarrow> (v = 0 \<or> (\<exists>j<64. v = 2 ^ j)) \<longrightarrow> (\<exists>k<64. va = 2 ^ k)"
  proof (intro impI)
    assume nz: "bound \<noteq> 0" and pw: "v = 0 \<or> (\<exists>j<64. v = 2 ^ j)"
    show "\<exists>k<64. va = 2 ^ k"
    proof (cases "v < bound")
      case True
      with eq have run: "loop (push_bit 1 v) bound = Some va" by simp
      have "push_bit 1 v = 0 \<or> (\<exists>j<64. push_bit 1 v = 2 ^ j)"
      proof (cases "v = 0")
        case True
        then show ?thesis by simp
      next
        case False
        with pw obtain j where j: "j < 64" "v = 2 ^ j" by blast
        then have shifted: "push_bit 1 v = 2 ^ Suc j" by (simp add: push_bit_eq_mult)
        show ?thesis
        proof (cases "Suc j < 64")
          case True
          with shifted show ?thesis by blast
        next
          case False
          with j have "Suc j = 64" by simp
          then have "(2 ^ Suc j :: size_t) = 0" by simp
          with shifted show ?thesis by simp
        qed
      qed
      with IH [OF run] nz show ?thesis by blast
    next
      case False
      with eq have "va = v" by simp
      moreover from False nz have "v \<noteq> 0"
        by (metis word_neq_0_conv)
      ultimately show ?thesis using pw by blast
    qed
  qed
qed

lemma nextPowerOfTwo_power:
  assumes "nextPowerOfTwo n = Some c"
  shows "\<exists>k<64. c = 2 ^ k"
proof (cases "(1 :: size_t) \<ge> (if n = 0 then 1 else n)")
  case True
  with assms have "c = 2 ^ 0" by (simp add: nextPowerOfTwo_def Let_def)
  then show ?thesis by (intro exI [of _ 0]) simp
next
  case False
  with assms have run: "nextPowerOfTwo_loop 1 (if n = 0 then 1 else n) = Some c"
    by (simp add: nextPowerOfTwo_def Let_def)
  have "(1 :: size_t) = 2 ^ 0" by simp
  then have "(1 :: size_t) = 0 \<or> (\<exists>j<64. (1 :: size_t) = 2 ^ j)"
    by (intro disjI2 exI [of _ 0]) simp
  moreover have "(if n = 0 then 1 else n) \<noteq> (0 :: size_t)" by simp
  ultimately show ?thesis using nextPowerOfTwo_loop_power [OF run] by blast
qed

lemma constructed_inv:
  assumes "FloatRingBuffer_new n = Some rb"
  shows "ring_inv rb"
proof -
  from assms obtain c where c: "nextPowerOfTwo n = Some c"
    and rb: "rb = \<lparr>m_capacity = c, m_mask = c - 1, m_buffer = replicate (unat c) 0,
                m_writeIndex = 0, m_readIndex = 0\<rparr>"
    by (auto simp: FloatRingBuffer_new_def split: option.splits)
  from nextPowerOfTwo_power [OF c] obtain k where k: "k < 64" "c = 2 ^ k" by blast
  then show ?thesis
    unfolding ring_inv_def rb by (auto simp: unat_power2 intro!: exI [of _ k])
qed

lemma write_loop_zero: "write_loop m w xs 0 0 buf = (0, buf)"
  by (subst write_loop.simps) simp

lemma read_loop_zero: "read_loop m r buf 0 0 ys = (0, ys)"
  by (subst read_loop.simps) simp

lemma write_loop_case:
  "(case write_loop m w xs t 0 buf of (written, buffer) \<Rightarrow> f written buffer) =
     f t (snd (write_loop m w xs t 0 buf))"
  using write_loop_fst [of 0 t m w xs buf]
  by (cases "write_loop m w xs t 0 buf") simp

lemma read_loop_case:
  "(case read_loop m r buf t 0 ys of (nread, ys') \<Rightarrow> f nread ys') =
     f t (snd (read_loop m r buf t 0 ys))"
  using read_loop_fst [of 0 t m r buf ys]
  by (cases "read_loop m r buf t 0 ys") simp

lemma rb_write_eq:
  "rb_write rb (Some xs) frames =
     (let n = (if frames > freeSpace rb then freeSpace rb else frames)
      in (n, rb\<lparr>m_buffer := snd (write_loop (m_mask rb) (m_writeIndex rb) xs n 0 (m_buffer rb)),
               m_writeIndex := m_writeIndex rb + n\<rparr>))"
  by (simp add: rb_write_def Let_def freeSpace_def write_loop_case write_loop_zero word_gt_0)

lemma rb_read_eq:
  "rb_read rb (Some ys) frames =
     (let n = (if frames > available rb then available rb else frames)
      in (n, Some (snd (read_loop (m_mask rb) (m_readIndex rb) (m_buffer rb) n 0 ys)),
          rb\<lparr>m_readIndex := m_readIndex rb + n\<rparr>))"
  by (simp add: rb_read_def Let_def available_def read_loop_case read_loop_zero word_gt_0)

lemma available_free_nat:
  assumes "ring_inv rb"
  shows "unat (available rb) + unat (freeSpace rb) = unat (m_capacity rb)"
proof -
  have le: "available rb \<le> m_capacity rb"
    using assms by (simp add: ring_inv_def available_def)
  then have "unat (freeSpace rb) = unat (m_capacity rb) - unat (available rb)"
    by (simp add: freeSpace_def available_def unat_sub)
  with le show ?thesis by (simp add: word_le_nat_alt)
qed

lemma write_count_fits:
  assumes "ring_inv rb" and "n \<le> freeSpace rb"
  shows "unat (available rb + n) = unat (available rb) + unat n"
    and "available rb + n \<le> m_capacity rb"
proof -
  have "unat (available rb) + unat n \<le> unat (m_capacity rb)"
    using available_free_nat [OF assms(1)] assms(2) by (simp add: word_le_nat_alt)
  moreover have "unat (m_capacity rb) < 2 ^ LENGTH(64)" by (rule unsigned_less)
  ultimately have lt: "unat (available rb) + unat n < 2 ^ LENGTH(64)" by simp
  then show eq: "unat (available rb + n) = unat (available rb) + unat n"
    by (simp only: unat_add_lem)
  show "available rb + n \<le> m_capacity rb"
    using \<open>unat (available rb) + unat n \<le> unat (m_capacity rb)\<close> eq
    by (simp add: word_le_nat_alt)
qed

lemma write_count_le:
  "(if frames > freeSpace rb then freeSpace rb else frames) \<le> freeSpace rb"
  by (simp add: not_less)

lemma read_count_le:
  "(if frames > available rb then available rb else frames) \<le> available rb"
  by (simp add: not_less)

lemma rb_write_inv:
  assumes "ring_inv rb"
  shows "ring_inv (snd (rb_write rb (Some xs) frames))"
proof -
  let ?n = "if frames > freeSpace rb then freeSpace rb else frames"
  have "m_writeIndex rb + ?n - m_readIndex rb = available rb + ?n"
    by (simp add: available_def)
  also have "\<dots> \<le> m_capacity rb"
    using write_count_fits(2) [OF assms write_count_le] .
  finally show ?thesis
    using assms by (simp add: rb_write_eq Let_def ring_inv_def)
qed

lemma rb_read_inv:
  assumes "ring_inv rb"
  shows "ring_inv (snd (snd (rb_read rb (Some ys) frames)))"
proof -
  let ?n = "if frames > available rb then available rb else frames"
  have n: "?n \<le> available rb" by (rule read_count_le)
  have "m_writeIndex rb - (m_readIndex rb + ?n) = available rb - ?n"
    by (simp add: available_def)
  also have "\<dots> \<le> available rb"
    using n by (simp add: word_le_nat_alt unat_sub)
  also have "\<dots> \<le> m_capacity rb"
    using assms by (simp add: ring_inv_def available_def)
  finally show ?thesis
    using assms by (simp add: rb_read_eq Let_def ring_inv_def)
qed

lemma reset_inv: "ring_inv rb \<Longrightarrow> ring_inv (reset rb)"
  by (simp add: ring_inv_def reset_def)

lemma reachable_inv: "reachable rb \<Longrightarrow> ring_inv rb"
proof (induction rule: reachable.induct)
  case (constructed capacityFrames rb)
  then show ?case by (rule constructed_inv)
next
  case (written rb frames xs)
  then show ?case by (simp add: rb_write_inv)
next
  case (was_read rb frames ys)
  then show ?case by (simp add: rb_read_inv)
next
  case (was_reset rb)
  then show ?case by (simp add: reset_inv)
qed

lemma mod_shift_less:
  fixes b x y C :: nat
  assumes "x < y" "y < C"
  shows "(b + x) mod C \<noteq> (b + y) mod C"
proof
  assume eq: "(b + x) mod C = (b + y) mod C"
  have "b + x \<le> b + y" using assms by simp
  from mod_eq_dvd_iff_nat [OF this, of C] eq have "C dvd (b + y) - (b + x)" by simp
  then have "C dvd y - x" by simp
  moreover have "0 < y - x" "y - x < C" using assms by simp_all
  ultimately show False using nat_dvd_not_less by blast
qed

lemma mod_shift_inj:
  fixes b x y C :: nat
  assumes "x < C" "y < C" "x \<noteq> y"
  shows "(b + x) mod C \<noteq> (b + y) mod C"
proof (cases "x < y")
  case True
  then show ?thesis using assms by (intro mod_shift_less)
next
  case False
  with assms have "y < x" by simp
  then have "(b + y) mod C \<noteq> (b + x) mod C" using assms by (intro mod_shift_less)
  then show ?thesis by simp
qed

lemma ring_index_nat:
  fixes b :: size_t
  assumes "k < 64" "i < 2 ^ 64"
  shows "unat ((b + of_nat i) AND (2 ^ k - 1)) = (unat b + i) mod 2 ^ k"
proof -
  have "unat (of_nat i :: size_t) = i" using assms(2) by (simp add: unat_of_nat)
  with ring_index [OF assms(1), of b "of_nat i"] show ?thesis by simp
qed

lemma unat_index_shift:
  fixes r n :: size_t
  assumes "k \<le> 64"
  shows "(unat (r + n) + i) mod 2 ^ k = (unat r + unat n + i) mod 2 ^ k"
proof -
  have dvd: "(2::nat) ^ k dvd 2 ^ 64" using assms by (intro le_imp_power_dvd)
  have "(unat (r + n) + i) mod 2 ^ k = ((unat r + unat n) mod 2 ^ 64 + i) mod 2 ^ k"
    by (simp add: unat_word_ariths)
  also have "\<dots> = ((unat r + unat n) mod 2 ^ 64 mod 2 ^ k + i) mod 2 ^ k"
    by (simp only: mod_add_left_eq)
  also have "\<dots> = ((unat r + unat n) mod 2 ^ k + i) mod 2 ^ k"
    by (simp only: mod_mod_cancel [OF dvd])
  also have "\<dots> = (unat r + unat n + i) mod 2 ^ k"
    by (simp only: mod_add_left_eq)
  finally show ?thesis .
qed

lemma unat_size_t_less: "unat (w :: size_t) < 2 ^ 64"
proof -
  have "unat w < 2 ^ LENGTH(64)" by (rule unsigned_less)
  then show ?thesis by simp
qed

lemma length_contents [simp]: "length (contents rb) = unat (available rb)"
  by (simp add: contents_def)

lemma contents_nth:
  assumes "ring_inv rb" "i < unat (available rb)"
  shows "contents rb ! i = m_buffer rb ! ((unat (m_readIndex rb) + i) mod unat (m_capacity rb))"
proof -
  from assms(1) obtain k where k: "k < 64" "m_capacity rb = 2 ^ k" "m_mask rb = 2 ^ k - 1"
    by (auto simp: ring_inv_def)
  have "i < 2 ^ 64" using assms(2) unat_size_t_less [of "available rb"] by simp
  then show ?thesis
    using assms(2) k by (simp add: contents_def ring_index_nat unat_power2)
qed

lemma rb_write_contents:
  assumes inv: "ring_inv rb"
    and n: "n = (if frames > freeSpace rb then freeSpace rb else frames)"
    and len: "unat n \<le> length xs"
  shows "contents (snd (rb_write rb (Some xs) frames)) = contents rb @ take (unat n) xs"
proof -
  from inv obtain k where k: "k < 64" "m_capacity rb = 2 ^ k" "m_mask rb = 2 ^ k - 1"
    "length (m_buffer rb) = 2 ^ k"
    by (auto simp: ring_inv_def)
  let ?C = "(2::nat) ^ k"
  let ?r = "unat (m_readIndex rb)" and ?a = "unat (available rb)"
  let ?buf' = "snd (write_loop (m_mask rb) (m_writeIndex rb) xs n 0 (m_buffer rb))"
  let ?rb' = "rb\<lparr>m_buffer := ?buf', m_writeIndex := m_writeIndex rb + n\<rparr>"
  have rb': "snd (rb_write rb (Some xs) frames) = ?rb'"
    by (simp add: rb_write_eq n Let_def)
  have inv': "ring_inv ?rb'"
    using rb_write_inv [OF inv, of xs frames] by (simp add: rb')
  have nle: "n \<le> freeSpace rb" unfolding n by (rule write_count_le)
  have av': "available ?rb' = available rb + n" by (simp add: available_def)
  have a': "unat (available ?rb') = ?a + unat n"
    unfolding av' by (rule write_count_fits(1) [OF inv nle])
  have fits: "?a + unat n \<le> ?C"
    using write_count_fits(2) [OF inv nle] write_count_fits(1) [OF inv nle] k
    by (simp add: word_le_nat_alt unat_power2)
  have w: "m_writeIndex rb = m_readIndex rb + available rb" by (simp add: available_def)
  have widx: "unat ((m_writeIndex rb + of_nat j) AND m_mask rb) = (?r + (?a + j)) mod ?C"
    if "j < unat n" for j
  proof -
    have "j < 2 ^ 64" using that unat_size_t_less [of n] by simp
    then have "unat ((m_writeIndex rb + of_nat j) AND m_mask rb) = (unat (m_writeIndex rb) + j) mod ?C"
      using k by (simp add: ring_index_nat)
    also have "\<dots> = (?r + ?a + j) mod ?C"
      unfolding w using k(1) by (intro unat_index_shift) simp
    finally show ?thesis by (simp add: add.assoc)
  qed
  have old: "?buf' ! ((?r + i) mod ?C) = m_buffer rb ! ((?r + i) mod ?C)" if "i < ?a" for i
  proof (rule write_loop_untouched, intro allI impI)
    fix j assume "unat (0 :: size_t) \<le> j \<and> j < unat n"
    then have j: "j < unat n" by simp
    have "(?r + i) mod ?C \<noteq> (?r + (?a + j)) mod ?C"
      using that j fits by (intro mod_shift_inj) simp_all
    then show "(?r + i) mod ?C \<noteq> unat ((m_writeIndex rb + of_nat j) AND m_mask rb)"
      by (simp add: widx [OF j])
  qed
  have new: "?buf' ! ((?r + (?a + j)) mod ?C) = xs ! j" if "j < unat n" for j
  proof -
    have "?buf' ! unat ((m_writeIndex rb + of_nat j) AND m_mask rb) = xs ! j"
    proof (rule write_loop_written)
      show "unat (0 :: size_t) \<le> j" by simp
      show "j < unat n" by (rule that)
      show "unat ((m_writeIndex rb + of_nat j) AND m_mask rb) < length (m_buffer rb)"
        unfolding widx [OF that] k(4) by simp
      show "\<forall>i'. j < i' \<and> i' < unat n \<longrightarrow>
          unat ((m_writeIndex rb + of_nat j) AND m_mask rb) \<noteq>
          unat ((m_writeIndex rb + of_nat i') AND m_mask rb)"
      proof (intro allI impI)
        fix i' assume i': "j < i' \<and> i' < unat n"
        then have "(?r + (?a + j)) mod ?C \<noteq> (?r + (?a + i')) mod ?C"
          using fits by (intro mod_shift_inj) simp_all
        with i' that show "unat ((m_writeIndex rb + of_nat j) AND m_mask rb) \<noteq>
            unat ((m_writeIndex rb + of_nat i') AND m_mask rb)"
          by (simp add: widx)
      qed
    qed
    then show ?thesis by (simp add: widx [OF that])
  qed
  have "contents ?rb' = contents rb @ take (unat n) xs"
  proof (rule nth_equalityI)
    show "length (contents ?rb') = length (contents rb @ take (unat n) xs)"
      using a' len by simp
    fix i assume "i < length (contents ?rb')"
    then have i: "i < ?a + unat n" using a' by simp
    then have nth': "contents ?rb' ! i = ?buf' ! ((?r + i) mod ?C)"
      using contents_nth [OF inv', of i] a' k by (simp add: unat_power2)
    show "contents ?rb' ! i = (contents rb @ take (unat n) xs) ! i"
    proof (cases "i < ?a")
      case True
      then show ?thesis
        using nth' old [OF True] contents_nth [OF inv True] k
        by (simp add: nth_append unat_power2)
    next
      case False
      then have j: "i - ?a < unat n" "?a + (i - ?a) = i" using i by simp_all
      from new [OF j(1)] j(2) have "?buf' ! ((?r + i) mod ?C) = xs ! (i - ?a)" by simp
      with False j len show ?thesis
        using nth' by (simp add: nth_append)
    qed
  qed
  then show ?thesis by (simp add: rb')
qed

lemma rb_read_contents:
  assumes inv: "ring_inv rb"
    and n: "n = (if frames > available rb then available rb else frames)"
    and len: "unat n \<le> length ys"
  shows "fst (rb_read rb (Some ys) frames) = n"
    and "\<exists>ys'. fst (snd (rb_read rb (Some ys) frames)) = Some ys' \<and> length ys' = length ys \<and>
           take (unat n) ys' = take (unat n) (contents rb) \<and>
           drop (unat n) ys' = drop (unat n) ys"
    and "contents (snd (snd (rb_read rb (Some ys) frames))) = drop (unat n) (contents rb)"
proof -
  let ?ys' = "snd (read_loop (m_mask rb) (m_readIndex rb) (m_buffer rb) n 0 ys)"
  let ?rb' = "rb\<lparr>m_readIndex := m_readIndex rb + n\<rparr>"
  have res: "rb_read rb (Some ys) frames = (n, Some ?ys', ?rb')"
    by (simp add: rb_read_eq n Let_def)
  have nle: "n \<le> available rb" unfolding n by (rule read_count_le)
  then have nle': "unat n \<le> unat (available rb)" by (simp add: word_le_nat_alt)
  show "fst (rb_read rb (Some ys) frames) = n" by (simp add: res)
  have nth: "?ys' ! i = (if i < unat n then m_buffer rb ! unat ((m_readIndex rb + of_nat i) AND m_mask rb)
      else ys ! i)" if "i < length ys" for i
    using read_loop_nth [OF that, of "m_mask rb" "m_readIndex rb" "m_buffer rb" n 0] by simp
  have tk: "take (unat n) ?ys' = take (unat n) (contents rb)"
  proof (rule nth_equalityI)
    show "length (take (unat n) ?ys') = length (take (unat n) (contents rb))"
      using len nle' by simp
    fix i assume "i < length (take (unat n) ?ys')"
    then have i: "i < unat n" "i < length ys" using len by simp_all
    with nle' show "take (unat n) ?ys' ! i = take (unat n) (contents rb) ! i"
      by (simp add: nth [OF i(2)] contents_def)
  qed
  have dr: "drop (unat n) ?ys' = drop (unat n) ys"
  proof (rule nth_equalityI)
    show "length (drop (unat n) ?ys') = length (drop (unat n) ys)" by simp
    fix i assume "i < length (drop (unat n) ?ys')"
    then have "unat n + i < length ys" by simp
    then show "drop (unat n) ?ys' ! i = drop (unat n) ys ! i"
      by (simp add: nth)
  qed
  show "\<exists>ys'. fst (snd (rb_read rb (Some ys) frames)) = Some ys' \<and> length ys' = length ys \<and>
           take (unat n) ys' = take (unat n) (contents rb) \<and>
           drop (unat n) ys' = drop (unat n) ys"
    using tk dr by (simp add: res)
  have av': "unat (available ?rb') = unat (available rb) - unat n"
  proof -
    have "available ?rb' = available rb - n" by (simp add: available_def)
    then show ?thesis using nle by (simp add: unat_sub)
  qed
  have "contents ?rb' = drop (unat n) (contents rb)"
  proof (rule nth_equalityI)
    show "length (contents ?rb') = length (drop (unat n) (contents rb))"
      using av' by simp
    fix i assume "i < length (contents ?rb')"
    then have i: "i < unat (available rb) - unat n" using av' by simp
    have "(m_readIndex rb + n + of_nat i) = m_readIndex rb + of_nat (unat n + i)"
      by simp
    with i show "contents ?rb' ! i = drop (unat n) (contents rb) ! i"
      using av' by (simp add: contents_def add.assoc)
  qed
  then show "contents (snd (snd (rb_read rb (Some ys) frames))) = drop (unat n) (contents rb)"
    by (simp add: res)
qed

text \<open>
  Claim C10. In every state of the ring, \<^verbatim>\<open>write\<close> with a null data pointer or with a frame
  count of 0 returns 0 and leaves the ring as it was; \<^verbatim>\<open>read\<close> with a null destination or
  with a frame count of 0 returns 0 and leaves the ring and the destination as they were.
\<close>

theorem C10_null_or_empty_calls:
  "rb_write rb None frames = (0, rb) \<and>
   rb_write rb data 0 = (0, rb) \<and>
   rb_read rb None frames = (0, None, rb) \<and>
   rb_read rb dst 0 = (0, dst, rb)"
  by (simp add: rb_write_def rb_read_def split: option.splits)

lemma rb_write_count:
  "fst (rb_write rb (Some xs) frames) = (if frames > freeSpace rb then freeSpace rb else frames)"
  by (simp add: rb_write_eq Let_def)

lemma rb_write_cursor:
  "m_readIndex (snd (rb_write rb (Some xs) frames)) = m_readIndex rb"
  "available (snd (rb_write rb (Some xs) frames)) =
     available rb + (if frames > freeSpace rb then freeSpace rb else frames)"
  by (simp_all add: rb_write_eq Let_def available_def)

text \<open>
  Claim C7. In every reachable state of the ring: when the ring is empty, writing \<open>N\<close> samples
  with \<open>N\<close> at most the capacity and reading \<open>N\<close> samples at once returns \<open>N\<close> both
  times and delivers the samples written, in order; a write of more samples than there is free
  space returns the free space, leaves the read cursor alone and appends exactly that many
  samples behind the unread ones; and \<^verbatim>\<open>available()\<close> and \<^verbatim>\<open>freeSpace()\<close> add up to the
  capacity, as numbers and as words.
\<close>

theorem C7_ring_round_trip:
  assumes "reachable rb"
  shows "(available rb = 0 \<and> N \<le> m_capacity rb \<and> unat N \<le> length xs \<and> unat N \<le> length ys \<longrightarrow>
            fst (rb_write rb (Some xs) N) = N \<and>
            fst (rb_read (snd (rb_write rb (Some xs) N)) (Some ys) N) = N \<and>
            (\<exists>ys'. fst (snd (rb_read (snd (rb_write rb (Some xs) N)) (Some ys) N)) = Some ys' \<and>
                   take (unat N) ys' = take (unat N) xs)) \<and>
         (freeSpace rb < frames \<and> unat frames \<le> length zs \<longrightarrow>
            fst (rb_write rb (Some zs) frames) = freeSpace rb \<and>
            m_readIndex (snd (rb_write rb (Some zs) frames)) = m_readIndex rb \<and>
            contents (snd (rb_write rb (Some zs) frames)) =
              contents rb @ take (unat (freeSpace rb)) zs) \<and>
         unat (available rb) + unat (freeSpace rb) = unat (m_capacity rb) \<and>
         available rb + freeSpace rb = m_capacity rb"
proof (intro conjI impI)
  note inv = reachable_inv [OF assms]
  show "unat (available rb) + unat (freeSpace rb) = unat (m_capacity rb)"
    by (rule available_free_nat [OF inv])
  show "available rb + freeSpace rb = m_capacity rb"
    by (simp add: available_def freeSpace_def)
  {
    assume h: "freeSpace rb < frames \<and> unat frames \<le> length zs"
    then have n: "freeSpace rb = (if frames > freeSpace rb then freeSpace rb else frames)" by simp
    have "unat (freeSpace rb) \<le> length zs"
      using h by (simp add: word_less_nat_alt)
    from rb_write_contents [OF inv n this]
    show "contents (snd (rb_write rb (Some zs) frames)) =
        contents rb @ take (unat (freeSpace rb)) zs" .
    show "fst (rb_write rb (Some zs) frames) = freeSpace rb"
      using h by (simp add: rb_write_count)
    show "m_readIndex (snd (rb_write rb (Some zs) frames)) = m_readIndex rb"
      by (rule rb_write_cursor)
  }
  {
    assume h: "available rb = 0 \<and> N \<le> m_capacity rb \<and> unat N \<le> length xs \<and> unat N \<le> length ys"
    let ?rb1 = "snd (rb_write rb (Some xs) N)"
    have free: "freeSpace rb = m_capacity rb"
      using h by (simp add: freeSpace_def available_def)
    have nw: "N = (if N > freeSpace rb then freeSpace rb else N)"
      using h free by (simp add: not_less [symmetric])
    show w: "fst (rb_write rb (Some xs) N) = N"
      using nw by (simp add: rb_write_count)
    have inv1: "ring_inv ?rb1" by (rule rb_write_inv [OF inv])
    have empty: "contents rb = []"
      using h by (simp add: contents_def)
    have c1: "contents ?rb1 = take (unat N) xs"
      using rb_write_contents [OF inv nw] h empty by simp
    have av1: "available ?rb1 = N"
      using h nw by (simp add: rb_write_cursor)
    have nr: "N = (if N > available ?rb1 then available ?rb1 else N)"
      by (simp add: av1)
    from rb_read_contents(1) [OF inv1 nr] h
    show "fst (rb_read ?rb1 (Some ys) N) = N" by simp
    from rb_read_contents(2) [OF inv1 nr] h c1
    show "\<exists>ys'. fst (snd (rb_read ?rb1 (Some ys) N)) = Some ys' \<and>
        take (unat N) ys' = take (unat N) xs"
      by auto
  }
qed

theorem C7_ring_round_trip_witness:
  "FloatRingBuffer_new 3 =
     Some \<lparr>m_capacity = 4, m_mask = 3, m_buffer = [0, 0, 0, 0], m_writeIndex = 0, m_readIndex = 0\<rparr> \<and>
   fst (rb_write \<lparr>m_capacity = 4, m_mask = 3, m_buffer = [0, 0, 0, 0], m_writeIndex = 0, m_readIndex = 0\<rparr>
          (Some [1, 2, 3]) 3) = 3 \<and>
   (\<exists>ys'. fst (snd (rb_read
        (snd (rb_write \<lparr>m_capacity = 4, m_mask = 3, m_buffer = [0, 0, 0, 0], m_writeIndex = 0, m_readIndex = 0\<rparr>
               (Some [1, 2, 3]) 3))
        (Some [0, 0, 0]) 3)) = Some ys' \<and> take 3 ys' = [1, 2, 3]) \<and>
   fst (rb_write \<lparr>m_capacity = 4, m_mask = 3, m_buffer = [0, 0, 0, 0], m_writeIndex = 0, m_readIndex = 0\<rparr>
          (Some [1, 2, 3, 4, 5, 6]) 6) = 4"
proof -
  let ?rb = "\<lparr>m_capacity = 4, m_mask = 3, m_buffer = [0, 0, 0, 0], m_writeIndex = 0, m_readIndex = 0\<rparr>"
  have new: "FloatRingBuffer_new 3 = Some ?rb" by code_simp
  then have reach: "reachable ?rb" by (rule reachable.constructed)
  have empty: "available ?rb = 0 \<and> (3 :: size_t) \<le> m_capacity ?rb \<and>
      unat (3 :: size_t) \<le> length [1, 2, 3 :: float] \<and> unat (3 :: size_t) \<le> length [0, 0, 0 :: float]"
    by (simp add: available_def word_le_nat_alt)
  have over: "freeSpace ?rb < 6 \<and> unat (6 :: size_t) \<le> length [1, 2, 3, 4, 5, 6 :: float]"
    by (simp add: freeSpace_def word_less_nat_alt)
  note th = C7_ring_round_trip [OF reach, of 3 "[1, 2, 3]" "[0, 0, 0]" 6 "[1, 2, 3, 4, 5, 6]"]
  note trip = th [THEN conjunct1, rule_format, OF empty]
  note full = th [THEN conjunct2, THEN conjunct1, rule_format, OF over]
  have a: "fst (rb_write ?rb (Some [1, 2, 3]) 3) = 3" by (rule trip [THEN conjunct1])
  have b: "\<exists>ys'. fst (snd (rb_read (snd (rb_write ?rb (Some [1, 2, 3]) 3)) (Some [0, 0, 0]) 3)) = Some ys' \<and>
      take 3 ys' = [1, 2, 3]"
    using trip [THEN conjunct2, THEN conjunct2] by simp
  have c: "fst (rb_write ?rb (Some [1, 2, 3, 4, 5, 6]) 6) = 4"
    using full [THEN conjunct1] by (simp add: freeSpace_def)
  from new a b c show ?thesis by (intro conjI)
qed

section \<open>Properties of the stream controller\<close>

subsection \<open>One pass of the loop\<close>

lemma accumulate_done: "accumulate pd input 0 sink = Some (pd, sink)"
  by (subst accumulate.simps) simp

lemma fill_fields [simp]:
  "m_running (fill pd zs) = m_running pd"
  "m_detector (fill pd zs) = m_detector pd"
  "m_hopFrameCount (fill pd zs) = m_hopFrameCount pd"
  "m_analysisFrameCount (fill pd zs) = m_analysisFrameCount pd"
  "m_accumulatorSize (fill pd zs) = m_accumulatorSize pd + int (length zs)"
  by (simp_all add: fill_def)

lemma fill_empty:
  "0 \<le> m_accumulatorSize pd \<Longrightarrow> fill pd [] = pd"
  by (simp add: fill_def)

lemma length_fill:
  assumes "0 \<le> m_accumulatorSize pd"
    and "nat (m_accumulatorSize pd) + length zs \<le> length (m_accumulator pd)"
  shows "length (m_accumulator (fill pd zs)) = length (m_accumulator pd)"
  using assms by (simp add: fill_def)

lemma fill_fill:
  assumes "0 \<le> m_accumulatorSize pd"
    and "nat (m_accumulatorSize pd) + length xs + length zs \<le> length (m_accumulator pd)"
  shows "fill (fill pd xs) zs = fill pd (xs @ zs)"
proof -
  have "nat (m_accumulatorSize pd) \<le> length (m_accumulator pd)"
    using assms(2) by simp
  then show ?thesis
    unfolding fill_def using assms(1) by (simp add: nat_add_distrib min_absorb2 ac_simps)
qed

lemma copy_frames_eq:
  assumes "m_accumulatorSize pd < m_analysisFrameCount pd" and "xs \<noteq> []"
  shows "copy_frames pd xs (int (length xs)) =
     (let c = min (nat (m_analysisFrameCount pd - m_accumulatorSize pd)) (length xs)
      in (fill pd (take c xs), drop c xs, int (length (drop c xs))))"
proof -
  define k where "k = nat (m_analysisFrameCount pd - m_accumulatorSize pd)"
  have k: "m_analysisFrameCount pd - m_accumulatorSize pd = int k" "0 < k"
    using assms(1) by (simp_all add: k_def)
  have n: "0 < length xs"
    using assms(2) by simp
  have m: "min (int k) (int (length xs)) = int (min k (length xs))"
    by simp
  have p: "0 < int (min k (length xs))"
    using k(2) n by simp
  have d: "int (length xs) - int (min k (length xs)) = int (length (drop (min k (length xs)) xs))"
    by simp
  have t: "length (take (min k (length xs)) xs) = min k (length xs)"
    by simp
  show ?thesis
    unfolding copy_frames_def Let_def k_def [symmetric] k(1) m fill_def
    by (simp only: p if_True nat_int d t)
qed

lemma accumulate_step:
  assumes "0 < n"
  shows "accumulate pd xs n sink =
      (case copy_frames pd xs n of
              (pd1, input1, framesRemaining1) \<Rightarrow>
                (case m_detector pd1 of
                   Some d \<Rightarrow>
                     if m_accumulatorSize pd1 \<ge> m_analysisFrameCount pd1
                     then (case dispatch_frame pd1 d of
                             (pd2, result) \<Rightarrow>
                               accumulate pd2 input1 framesRemaining1 (sink @ [result]))
                     else Some (pd1, sink)
                 | None \<Rightarrow> Some (pd1, sink)))"
  using assms by (subst accumulate.simps) (simp only: if_True)

lemma accumulate_cong:
  assumes "copy_frames pd xs n = copy_frames pd' xs' n'" "0 < n" "0 < n'"
  shows "accumulate pd xs n sink = accumulate pd' xs' n' sink"
  by (simp only: accumulate_step [OF assms(2)] accumulate_step [OF assms(3)] assms(1))

lemma dispatch_frame_fields:
  "m_running (fst (dispatch_frame pd d)) = m_running pd"
  "m_detector (fst (dispatch_frame pd d)) \<noteq> None"
  "m_hopFrameCount (fst (dispatch_frame pd d)) = m_hopFrameCount pd"
  "m_analysisFrameCount (fst (dispatch_frame pd d)) = m_analysisFrameCount pd"
  "m_accumulatorSize (fst (dispatch_frame pd d)) =
     (if m_hopFrameCount pd < m_analysisFrameCount pd
      then m_analysisFrameCount pd - m_hopFrameCount pd else 0)"
  by (simp_all add: dispatch_frame_def Let_def case_prod_beta)

lemma dispatch_frame_accumulator:
  "m_accumulator (fst (dispatch_frame pd d)) =
     (if m_hopFrameCount pd < m_analysisFrameCount pd
      then take (nat (m_analysisFrameCount pd - m_hopFrameCount pd))
             (drop (nat (m_hopFrameCount pd)) (m_accumulator pd)) @
           drop (nat (m_analysisFrameCount pd - m_hopFrameCount pd)) (m_accumulator pd)
      else m_accumulator pd)"
  by (simp add: dispatch_frame_def Let_def case_prod_beta)

lemma dispatch_frame_length:
  assumes "0 < m_hopFrameCount pd"
    and "int (length (m_accumulator pd)) = m_analysisFrameCount pd"
  shows "length (m_accumulator (fst (dispatch_frame pd d))) = length (m_accumulator pd)"
proof (cases "m_hopFrameCount pd < m_analysisFrameCount pd")
  case True
  define h where "h = nat (m_hopFrameCount pd)"
  define n where "n = length (m_accumulator pd)"
  have h: "m_hopFrameCount pd = int h" "0 < h"
    using assms(1) by (simp_all add: h_def)
  have "h < n"
    using True assms(2) h(1) by (simp add: n_def)
  moreover have "nat (m_analysisFrameCount pd - m_hopFrameCount pd) = n - h"
    using assms(2) h(1) by (simp add: n_def)
  ultimately show ?thesis
    using True by (simp add: dispatch_frame_accumulator h(1) n_def [symmetric])
next
  case False
  then show ?thesis
    by (simp add: dispatch_frame_accumulator)
qed

lemma dispatch_frame_accumulating:
  assumes "m_running pd" "0 < m_hopFrameCount pd" "0 < m_analysisFrameCount pd"
    and "int (length (m_accumulator pd)) = m_analysisFrameCount pd"
  shows "accumulating (fst (dispatch_frame pd d))"
  unfolding accumulating_def
  using assms dispatch_frame_length [OF assms(2) assms(4), of d]
  by (simp add: dispatch_frame_fields)

lemma accumulating_fill:
  assumes "accumulating pd"
    and "length zs \<le> nat (m_analysisFrameCount pd - m_accumulatorSize pd)"
  shows "m_running (fill pd zs)" "0 < m_hopFrameCount (fill pd zs)"
    "0 < m_analysisFrameCount (fill pd zs)"
    "int (length (m_accumulator (fill pd zs))) = m_analysisFrameCount (fill pd zs)"
proof -
  have "nat (m_accumulatorSize pd) + length zs \<le> length (m_accumulator pd)"
    using assms by (simp add: accumulating_def) arith
  then have "length (m_accumulator (fill pd zs)) = length (m_accumulator pd)"
    using assms(1) by (intro length_fill) (simp_all add: accumulating_def)
  then show "int (length (m_accumulator (fill pd zs))) = m_analysisFrameCount (fill pd zs)"
    using assms(1) by (simp add: accumulating_def)
qed (use assms(1) in \<open>simp_all add: accumulating_def\<close>)

lemma accumulating_fill_short:
  assumes "accumulating pd"
    and "length zs < nat (m_analysisFrameCount pd - m_accumulatorSize pd)"
  shows "accumulating (fill pd zs)"
  unfolding accumulating_def
  using accumulating_fill [OF assms(1), of zs] assms
  by (simp add: accumulating_def)

lemma accumulate_short:
  assumes "accumulating pd" and "xs \<noteq> []"
    and "length xs < nat (m_analysisFrameCount pd - m_accumulatorSize pd)"
  shows "accumulate pd xs (int (length xs)) sink = Some (fill pd xs, sink)"
proof -
  obtain d where d: "m_detector pd = Some d"
    using assms(1) by (auto simp: accumulating_def)
  have lt: "m_accumulatorSize pd < m_analysisFrameCount pd"
    using assms(1) by (simp add: accumulating_def)
  have c: "min (nat (m_analysisFrameCount pd - m_accumulatorSize pd)) (length xs) = length xs"
    using assms(3) by simp
  have cf: "copy_frames pd xs (int (length xs)) = (fill pd xs, [], 0)"
    by (simp add: copy_frames_eq [OF lt assms(2)] c)
  have n: "0 < int (length xs)"
    using assms(2) by simp
  have "\<not> m_analysisFrameCount pd \<le> m_accumulatorSize pd + int (length xs)"
    using assms(3) by arith
  then show ?thesis
    by (simp add: accumulate_step [OF n] cf d)
qed

lemma accumulate_full:
  assumes "accumulating pd" and "m_detector pd = Some d"
    and "nat (m_analysisFrameCount pd - m_accumulatorSize pd) \<le> length xs"
  shows "accumulate pd xs (int (length xs)) sink =
     (case dispatch_frame (fill pd (take (nat (m_analysisFrameCount pd - m_accumulatorSize pd)) xs)) d of
        (pd2, result) \<Rightarrow>
          accumulate pd2 (drop (nat (m_analysisFrameCount pd - m_accumulatorSize pd)) xs)
            (int (length (drop (nat (m_analysisFrameCount pd - m_accumulatorSize pd)) xs)))
            (sink @ [result]))"
proof -
  let ?k = "nat (m_analysisFrameCount pd - m_accumulatorSize pd)"
  have lt: "m_accumulatorSize pd < m_analysisFrameCount pd"
    using assms(1) by (simp add: accumulating_def)
  then have k: "0 < ?k"
    by simp
  then have ne: "xs \<noteq> []"
    using assms(3) by auto
  have c: "min ?k (length xs) = ?k"
    using assms(3) by simp
  have cf: "copy_frames pd xs (int (length xs)) =
      (fill pd (take ?k xs), drop ?k xs, int (length (drop ?k xs)))"
    by (simp only: copy_frames_eq [OF lt ne] c Let_def)
  have n: "0 < int (length xs)"
    using ne by simp
  have "length (take ?k xs) = ?k"
    using assms(3) by simp
  then have "m_analysisFrameCount pd \<le> m_accumulatorSize pd + int (length (take ?k xs))"
    using lt by simp
  then show ?thesis
    by (simp only: accumulate_step [OF n] cf prod.case fill_fields assms(2) option.case if_True)
qed

subsection \<open>The loop ends, and chunks compose\<close>

lemma accumulating_detector:
  assumes "accumulating pd"
  obtains d where "m_detector pd = Some d"
  using assms by (auto simp: accumulating_def)

lemma accumulating_space:
  assumes "accumulating pd"
  shows "0 < nat (m_analysisFrameCount pd - m_accumulatorSize pd)"
  using assms by (simp add: accumulating_def)

lemma dispatch_fill_accumulating:
  assumes "accumulating pd"
    and "length zs \<le> nat (m_analysisFrameCount pd - m_accumulatorSize pd)"
  shows "accumulating (fst (dispatch_frame (fill pd zs) d))"
  by (rule dispatch_frame_accumulating) (rule accumulating_fill [OF assms])+

lemma accumulate_returns:
  assumes "accumulating pd"
  shows "\<exists>pd' sink'. accumulate pd xs (int (length xs)) sink = Some (pd', sink') \<and> accumulating pd'"
  using assms
proof (induction "length xs" arbitrary: xs pd sink rule: less_induct)
  case less
  let ?k = "nat (m_analysisFrameCount pd - m_accumulatorSize pd)"
  obtain d where d: "m_detector pd = Some d"
    using less.prems by (rule accumulating_detector)
  show ?case
  proof (cases "?k \<le> length xs")
    case True
    define pd2 where "pd2 = fst (dispatch_frame (fill pd (take ?k xs)) d)"
    define r where "r = snd (dispatch_frame (fill pd (take ?k xs)) d)"
    have df: "dispatch_frame (fill pd (take ?k xs)) d = (pd2, r)"
      by (simp add: pd2_def r_def)
    have acc2: "accumulating pd2"
      unfolding pd2_def using less.prems by (rule dispatch_fill_accumulating) simp
    have "length (drop ?k xs) < length xs"
      using True accumulating_space [OF less.prems] by simp
    from less.hyps [OF this acc2, of "sink @ [r]"] show ?thesis
      by (simp only: accumulate_full [OF less.prems d True] df prod.case)
  next
    case False
    show ?thesis
    proof (cases "xs = []")
      case True
      then show ?thesis
        using less.prems by (simp add: accumulate_done)
    next
      case ne: False
      have short: "length xs < ?k"
        using False by simp
      show ?thesis
        using accumulating_fill_short [OF less.prems short]
        by (simp add: accumulate_short [OF less.prems ne short])
    qed
  qed
qed

lemma accumulate_absorb:
  assumes "accumulating pd"
    and "length xs < nat (m_analysisFrameCount pd - m_accumulatorSize pd)"
  shows "accumulate pd (xs @ ys) (int (length (xs @ ys))) sink =
      accumulate (fill pd xs) ys (int (length ys)) sink"
proof (cases "xs = [] \<or> ys = []")
  case True
  then show ?thesis
  proof
    assume "xs = []"
    then show ?thesis
      using assms(1) by (simp add: fill_empty accumulating_def)
  next
    assume ys: "ys = []"
    show ?thesis
    proof (cases "xs = []")
      case True
      then show ?thesis
        using assms(1) ys by (simp add: fill_empty accumulating_def)
    next
      case False
      then show ?thesis
        using ys by (simp add: accumulate_short [OF assms(1) False assms(2)] accumulate_done)
    qed
  qed
next
  case False
  then have ne: "xs \<noteq> []" "ys \<noteq> []" "xs @ ys \<noteq> []"
    by simp_all
  let ?k = "nat (m_analysisFrameCount pd - m_accumulatorSize pd)"
  let ?j = "nat (m_analysisFrameCount (fill pd xs) - m_accumulatorSize (fill pd xs))"
  obtain d where d: "m_detector pd = Some d"
    using assms(1) by (rule accumulating_detector)
  have d': "m_detector (fill pd xs) = Some d"
    using d by simp
  have acc: "accumulating (fill pd xs)"
    using assms by (rule accumulating_fill_short)
  have j: "?j = ?k - length xs"
    by simp
  have s: "0 \<le> m_accumulatorSize pd"
    using assms(1) by (simp add: accumulating_def)
  have room: "nat (m_accumulatorSize pd) + ?k = length (m_accumulator pd)"
    using assms(1) by (simp add: accumulating_def) arith
  show ?thesis
  proof (cases "length ys < ?j")
    case True
    then have short: "length (xs @ ys) < ?k"
      using j by simp
    have "nat (m_accumulatorSize pd) + length xs + length ys \<le> length (m_accumulator pd)"
      using short room by simp
    then have "fill (fill pd xs) ys = fill pd (xs @ ys)"
      by (rule fill_fill [OF s])
    then show ?thesis
      by (simp only: accumulate_short [OF assms(1) ne(3) short] accumulate_short [OF acc ne(2) True])
  next
    case False
    then have full': "?j \<le> length ys"
      by simp
    then have full: "?k \<le> length (xs @ ys)"
      using j by simp
    have t: "take ?k (xs @ ys) = xs @ take ?j ys" "drop ?k (xs @ ys) = drop ?j ys"
      using assms(2) j by simp_all
    have "nat (m_accumulatorSize pd) + length xs + length (take ?j ys) \<le> length (m_accumulator pd)"
      using full' j assms(2) room by simp
    then have "fill (fill pd xs) (take ?j ys) = fill pd (xs @ take ?j ys)"
      by (rule fill_fill [OF s])
    then show ?thesis
      by (simp only: accumulate_full [OF assms(1) d full] accumulate_full [OF acc d' full'] t)
  qed
qed

lemma accumulate_append:
  assumes "accumulating pd"
  shows "accumulate pd (xs @ ys) (int (length (xs @ ys))) sink =
     (case accumulate pd xs (int (length xs)) sink of
        None \<Rightarrow> None
      | Some (pd', sink') \<Rightarrow> accumulate pd' ys (int (length ys)) sink')"
  using assms
proof (induction "length xs" arbitrary: xs pd sink rule: less_induct)
  case less
  let ?k = "nat (m_analysisFrameCount pd - m_accumulatorSize pd)"
  obtain d where d: "m_detector pd = Some d"
    using less.prems by (rule accumulating_detector)
  show ?case
  proof (cases "?k \<le> length xs")
    case True
    then have full: "?k \<le> length (xs @ ys)"
      by simp
    have t: "take ?k (xs @ ys) = take ?k xs" "drop ?k (xs @ ys) = drop ?k xs @ ys"
      using True by simp_all
    define pd2 where "pd2 = fst (dispatch_frame (fill pd (take ?k xs)) d)"
    define r where "r = snd (dispatch_frame (fill pd (take ?k xs)) d)"
    have df: "dispatch_frame (fill pd (take ?k xs)) d = (pd2, r)"
      by (simp add: pd2_def r_def)
    have acc2: "accumulating pd2"
      unfolding pd2_def using less.prems by (rule dispatch_fill_accumulating) simp
    have "length (drop ?k xs) < length xs"
      using True accumulating_space [OF less.prems] by simp
    from less.hyps [OF this acc2, of "sink @ [r]"] show ?thesis
      by (simp only: accumulate_full [OF less.prems d True] accumulate_full [OF less.prems d full]
          t df prod.case)
  next
    case False
    then have short: "length xs < ?k"
      by simp
    show ?thesis
    proof (cases "xs = []")
      case True
      then show ?thesis
        by (simp add: accumulate_done)
    next
      case ne: False
      show ?thesis
        by (simp only: accumulate_absorb [OF less.prems short]
            accumulate_short [OF less.prems ne short] option.case prod.case)
    qed
  qed
qed

lemma onAudioReady_accumulating:
  assumes "accumulating pd"
  shows "onAudioReady pd xs (int (length xs)) sink =
     map_option (\<lambda>(pd', sink'). (Continue, pd', sink')) (accumulate pd xs (int (length xs)) sink)"
  using assms by (simp add: onAudioReady_def accumulating_def split: option.splits)

lemma deliver_concat:
  assumes "accumulating pd"
  shows "deliver pd chunks sink = accumulate pd (concat chunks) (int (length (concat chunks))) sink"
  using assms
proof (induction chunks arbitrary: pd sink)
  case Nil
  then show ?case
    by (simp add: accumulate_done)
next
  case (Cons chunk chunks)
  obtain pd' sink' where r: "accumulate pd chunk (int (length chunk)) sink = Some (pd', sink')"
    and acc: "accumulating pd'"
    using accumulate_returns [OF Cons.prems, of chunk sink] by blast
  have "deliver pd (chunk # chunks) sink = deliver pd' chunks sink'"
    by (simp add: onAudioReady_accumulating [OF Cons.prems] r)
  also have "\<dots> = accumulate pd' (concat chunks) (int (length (concat chunks))) sink'"
    using acc by (rule Cons.IH)
  also have "\<dots> = accumulate pd (chunk @ concat chunks) (int (length (chunk @ concat chunks))) sink"
    by (simp only: accumulate_append [OF Cons.prems] r option.case prod.case)
  finally show ?case
    by simp
qed

lemma period_count:
  fixes m p :: nat
  assumes "0 < p"
  shows "(if m < p then 0 else 1 + (m - p) div p) = m div p"
proof (cases "m < p")
  case True
  then show ?thesis
    by simp
next
  case False
  then have "p \<le> m"
    by simp
  from le_div_geq [OF assms this] False show ?thesis
    by simp
qed

lemma dispatch_fill_space:
  assumes "accumulating pd"
  shows "nat (m_analysisFrameCount (fst (dispatch_frame (fill pd zs) d)) -
              m_accumulatorSize (fst (dispatch_frame (fill pd zs) d))) =
         nat (min (m_hopFrameCount pd) (m_analysisFrameCount pd))"
  using assms by (simp add: dispatch_frame_fields accumulating_def)

lemma accumulate_count:
  assumes "accumulating pd"
    and "accumulate pd xs (int (length xs)) sink = Some (pd', sink')"
  shows "length sink' = length sink +
     (if length xs < nat (m_analysisFrameCount pd - m_accumulatorSize pd) then 0
      else 1 + (length xs - nat (m_analysisFrameCount pd - m_accumulatorSize pd)) div
               nat (min (m_hopFrameCount pd) (m_analysisFrameCount pd)))"
  using assms
proof (induction "length xs" arbitrary: xs pd sink rule: less_induct)
  case less
  let ?k = "nat (m_analysisFrameCount pd - m_accumulatorSize pd)"
  let ?p = "nat (min (m_hopFrameCount pd) (m_analysisFrameCount pd))"
  obtain d where d: "m_detector pd = Some d"
    using less.prems(1) by (rule accumulating_detector)
  have p: "0 < ?p"
    using less.prems(1) by (simp add: accumulating_def)
  show ?case
  proof (cases "?k \<le> length xs")
    case True
    define pd2 where "pd2 = fst (dispatch_frame (fill pd (take ?k xs)) d)"
    define r where "r = snd (dispatch_frame (fill pd (take ?k xs)) d)"
    have df: "dispatch_frame (fill pd (take ?k xs)) d = (pd2, r)"
      by (simp add: pd2_def r_def)
    have acc2: "accumulating pd2"
      unfolding pd2_def using less.prems(1) by (rule dispatch_fill_accumulating) simp
    have shorter: "length (drop ?k xs) < length xs"
      using True accumulating_space [OF less.prems(1)] by simp
    have k2: "nat (m_analysisFrameCount pd2 - m_accumulatorSize pd2) = ?p"
      unfolding pd2_def using less.prems(1) by (rule dispatch_fill_space)
    have p2: "nat (min (m_hopFrameCount pd2) (m_analysisFrameCount pd2)) = ?p"
      by (simp add: pd2_def dispatch_frame_fields)
    have run: "accumulate pd2 (drop ?k xs) (int (length (drop ?k xs))) (sink @ [r]) = Some (pd', sink')"
      using less.prems(2) by (simp only: accumulate_full [OF less.prems(1) d True] df prod.case)
    have "length sink' = length (sink @ [r]) +
        (if length (drop ?k xs) < ?p then 0 else 1 + (length (drop ?k xs) - ?p) div ?p)"
      using less.hyps [OF shorter acc2 run] by (simp only: k2 p2)
    also have "\<dots> = length sink + 1 + (length xs - ?k) div ?p"
      by (simp only: period_count [OF p]) simp
    finally show ?thesis
      using True by simp
  next
    case False
    then have short: "length xs < ?k"
      by simp
    show ?thesis
    proof (cases "xs = []")
      case True
      then show ?thesis
        using less.prems(2) short by (simp add: accumulate_done)
    next
      case ne: False
      show ?thesis
        using less.prems(2) short by (simp add: accumulate_short [OF less.prems(1) ne short])
    qed
  qed
qed

lemma start_accumulating:
  assumes "\<not> m_running pd"
  shows "accumulating (snd (start pd (Started rate) bufferSize threshold))"
proof -
  have "(256::int) div 2 \<le> max 256 bufferSize div 2"
    by (rule zdiv_mono1) simp_all
  then have "0 < max 256 bufferSize div 2"
    by simp
  moreover have "0 < max 256 bufferSize" "0 \<le> max 256 bufferSize"
    by simp_all
  ultimately show ?thesis
    using assms by (simp add: start_def Let_def accumulating_def)
qed

lemma retained_samples:
  assumes "0 < m_hopFrameCount pd"
    and "int (length (m_accumulator pd)) = m_analysisFrameCount pd"
  shows "take (nat (m_accumulatorSize (fst (dispatch_frame pd d))))
           (m_accumulator (fst (dispatch_frame pd d))) =
         drop (nat (m_hopFrameCount pd)) (m_accumulator pd)"
proof (cases "m_hopFrameCount pd < m_analysisFrameCount pd")
  case True
  define h where "h = nat (m_hopFrameCount pd)"
  define n where "n = length (m_accumulator pd)"
  have h: "m_hopFrameCount pd = int h"
    using assms(1) by (simp add: h_def)
  have "h < n"
    using True assms(2) h by (simp add: n_def)
  moreover have "nat (m_analysisFrameCount pd - m_hopFrameCount pd) = n - h"
    using assms(2) h by (simp add: n_def)
  ultimately show ?thesis
    using True by (simp add: dispatch_frame_accumulator dispatch_frame_fields h n_def [symmetric])
next
  case False
  then have "length (m_accumulator pd) \<le> nat (m_hopFrameCount pd)"
    using assms(2) by simp
  then show ?thesis
    using False by (simp add: dispatch_frame_fields)
qed

lemma dispatch_frame_result:
  "snd (dispatch_frame pd d) =
     fst (dsp_processBuffer d (Some (m_accumulator pd)) (nat (m_analysisFrameCount pd)))"
  by (simp add: dispatch_frame_def Let_def case_prod_beta)

lemma frame_of_fill:
  assumes "accumulating pd"
    and "length zs = nat (m_analysisFrameCount pd - m_accumulatorSize pd)"
  shows "m_accumulator (fill pd zs) = take (nat (m_accumulatorSize pd)) (m_accumulator pd) @ zs"
proof -
  have "length (m_accumulator pd) \<le> nat (m_accumulatorSize pd) + length zs"
    using assms by (simp add: accumulating_def) arith
  then show ?thesis
    by (simp add: fill_def)
qed

subsection \<open>Chunked delivery and failed starts\<close>

text \<open>
  Claim C8. Let the controller be running between two callbacks (\<open>accumulating\<close>, the state
  \<^verbatim>\<open>start\<close> establishes and every callback keeps). Delivering a stream in any sequence of
  chunks, empty ones and chunks of one sample included, ends in the same controller and hands
  the sink the same results in the same order as delivering the concatenation in one callback.
  Every such delivery returns, it keeps the controller accumulating, and the number of results
  it emits depends on the total length only: none while the frame is not full, then the first
  when the frame fills, and one more every \<open>min hop analysisFrameCount\<close> samples. Whenever the
  samples \<open>zs\<close> complete a frame, the estimator is called on the whole frame, the fill count
  becomes \<open>analysisFrameCount - hopFrameCount\<close> (0 when the hop is not below the frame
  length), and the retained front of the buffer is the frame without its first
  \<open>hopFrameCount\<close> samples.
\<close>

theorem C8_chunked_delivery:
  assumes "accumulating pd"
  shows "deliver pd chunks sink = deliver pd [concat chunks] sink \<and>
    (\<exists>pd' sink'. deliver pd chunks sink = Some (pd', sink') \<and> accumulating pd' \<and>
       length sink' = length sink +
         (if length (concat chunks) < nat (m_analysisFrameCount pd - m_accumulatorSize pd) then 0
          else 1 + (length (concat chunks) - nat (m_analysisFrameCount pd - m_accumulatorSize pd)) div
                   nat (min (m_hopFrameCount pd) (m_analysisFrameCount pd)))) \<and>
    (length zs = nat (m_analysisFrameCount pd - m_accumulatorSize pd) \<longrightarrow>
       snd (dispatch_frame (fill pd zs) d) =
         fst (dsp_processBuffer d (Some (take (nat (m_accumulatorSize pd)) (m_accumulator pd) @ zs))
                (nat (m_analysisFrameCount pd))) \<and>
       m_accumulatorSize (fst (dispatch_frame (fill pd zs) d)) =
         (if m_hopFrameCount pd < m_analysisFrameCount pd
          then m_analysisFrameCount pd - m_hopFrameCount pd else 0) \<and>
       take (nat (m_accumulatorSize (fst (dispatch_frame (fill pd zs) d))))
         (m_accumulator (fst (dispatch_frame (fill pd zs) d))) =
         drop (nat (m_hopFrameCount pd)) (take (nat (m_accumulatorSize pd)) (m_accumulator pd) @ zs))"
proof (intro conjI impI)
  let ?run = "accumulate pd (concat chunks) (int (length (concat chunks))) sink"
  have one: "deliver pd [concat chunks] sink = ?run"
    using deliver_concat [OF assms, of "[concat chunks]" sink] by simp
  show "deliver pd chunks sink = deliver pd [concat chunks] sink"
    unfolding one by (rule deliver_concat [OF assms])
  obtain pd' sink' where r: "?run = Some (pd', sink')" and acc: "accumulating pd'"
    using accumulate_returns [OF assms, of "concat chunks" sink] by blast
  show "\<exists>pd' sink'. deliver pd chunks sink = Some (pd', sink') \<and> accumulating pd' \<and>
       length sink' = length sink +
         (if length (concat chunks) < nat (m_analysisFrameCount pd - m_accumulatorSize pd) then 0
          else 1 + (length (concat chunks) - nat (m_analysisFrameCount pd - m_accumulatorSize pd)) div
                   nat (min (m_hopFrameCount pd) (m_analysisFrameCount pd)))"
    using r acc accumulate_count [OF assms r] by (simp only: deliver_concat [OF assms]) blast
next
  assume zs: "length zs = nat (m_analysisFrameCount pd - m_accumulatorSize pd)"
  have frame: "m_accumulator (fill pd zs) = take (nat (m_accumulatorSize pd)) (m_accumulator pd) @ zs"
    using assms zs by (rule frame_of_fill)
  have le: "length zs \<le> nat (m_analysisFrameCount pd - m_accumulatorSize pd)"
    using zs by simp
  show "snd (dispatch_frame (fill pd zs) d) =
         fst (dsp_processBuffer d (Some (take (nat (m_accumulatorSize pd)) (m_accumulator pd) @ zs))
                (nat (m_analysisFrameCount pd)))"
    by (simp add: dispatch_frame_result frame)
  show "m_accumulatorSize (fst (dispatch_frame (fill pd zs) d)) =
         (if m_hopFrameCount pd < m_analysisFrameCount pd
          then m_analysisFrameCount pd - m_hopFrameCount pd else 0)"
    by (simp add: dispatch_frame_fields)
  have "take (nat (m_accumulatorSize (fst (dispatch_frame (fill pd zs) d))))
         (m_accumulator (fst (dispatch_frame (fill pd zs) d))) =
         drop (nat (m_hopFrameCount (fill pd zs))) (m_accumulator (fill pd zs))"
    by (rule retained_samples) (rule accumulating_fill [OF assms le])+
  then show "take (nat (m_accumulatorSize (fst (dispatch_frame (fill pd zs) d))))
         (m_accumulator (fst (dispatch_frame (fill pd zs) d))) =
         drop (nat (m_hopFrameCount pd)) (take (nat (m_accumulatorSize pd)) (m_accumulator pd) @ zs)"
    by (simp only: frame fill_fields)
qed

text \<open>
  The controller after a successful \<^verbatim>\<open>start\<close> with a frame of 256 samples and a hop of 128:
  300 samples, in a chunk of 100 and a chunk of 200 or in one chunk, give one result, and the
  first full frame leaves 128 samples in the buffer.
\<close>

theorem C8_chunked_delivery_witness:
  "accumulating (snd (start PitchDetector_new (Started 48000) 256 (15 / 100))) \<and>
   deliver (snd (start PitchDetector_new (Started 48000) 256 (15 / 100)))
     [replicate 100 1, replicate 200 1] [] =
   deliver (snd (start PitchDetector_new (Started 48000) 256 (15 / 100)))
     [concat [replicate 100 1, replicate 200 1]] [] \<and>
   (\<exists>pd' sink'.
      deliver (snd (start PitchDetector_new (Started 48000) 256 (15 / 100)))
        [replicate 100 1, replicate 200 1] [] = Some (pd', sink') \<and>
      accumulating pd' \<and> length sink' = 1) \<and>
   m_accumulatorSize
     (fst (dispatch_frame
        (fill (snd (start PitchDetector_new (Started 48000) 256 (15 / 100))) (replicate 256 1))
        (dsp_YinPitchDetector (Finite 48000) 256 (15 / 100)))) = 128"
proof -
  let ?pd = "snd (start PitchDetector_new (Started 48000) 256 (15 / 100))"
  let ?chunks = "[replicate 100 1, replicate 200 1] :: float list list"
  let ?zs = "replicate 256 1 :: float list"
  have a: "accumulating ?pd"
    by (rule start_accumulating) (simp add: PitchDetector_new_def)
  have f: "m_analysisFrameCount ?pd = 256" "m_accumulatorSize ?pd = 0" "m_hopFrameCount ?pd = 128"
    by (simp_all add: start_def PitchDetector_new_def Let_def)
  note th = C8_chunked_delivery [OF a, of ?chunks "[]" ?zs "dsp_YinPitchDetector (Finite 48000) 256 (15 / 100)"]
  have zs: "length ?zs = nat (m_analysisFrameCount ?pd - m_accumulatorSize ?pd)"
    by (simp only: f) simp
  have b: "deliver ?pd ?chunks [] = deliver ?pd [concat ?chunks] []"
    by (rule th [THEN conjunct1])
  obtain pd' sink' where r: "deliver ?pd ?chunks [] = Some (pd', sink')" and acc: "accumulating pd'"
    and n: "length sink' = length ([] :: PitchResult list) +
         (if length (concat ?chunks) < nat (m_analysisFrameCount ?pd - m_accumulatorSize ?pd) then 0
          else 1 + (length (concat ?chunks) - nat (m_analysisFrameCount ?pd - m_accumulatorSize ?pd)) div
                   nat (min (m_hopFrameCount ?pd) (m_analysisFrameCount ?pd)))"
    using th [THEN conjunct2, THEN conjunct1] by blast
  have "length sink' = 1"
    using n by (simp only: f) simp
  with r acc have c: "\<exists>pd' sink'. deliver ?pd ?chunks [] = Some (pd', sink') \<and>
      accumulating pd' \<and> length sink' = 1"
    by blast
  have "m_accumulatorSize (fst (dispatch_frame (fill ?pd ?zs) (dsp_YinPitchDetector (Finite 48000) 256 (15 / 100)))) =
      (if m_hopFrameCount ?pd < m_analysisFrameCount ?pd
       then m_analysisFrameCount ?pd - m_hopFrameCount ?pd else 0)"
    by (rule th [THEN conjunct2, THEN conjunct2, rule_format, OF zs, THEN conjunct2, THEN conjunct1])
  then have e: "m_accumulatorSize (fst (dispatch_frame (fill ?pd ?zs) (dsp_YinPitchDetector (Finite 48000) 256 (15 / 100)))) = 128"
    by (simp only: f) simp
  from a b c e show ?thesis
    by (intro conjI)
qed

text \<open>
  Claim C9, as stated, fails: \<^verbatim>\<open>start\<close> stores the clamped buffer size, the hop and the
  clamped threshold before it opens the stream, and no path puts the old values back. After a
  failed start on a new controller, \<^verbatim>\<open>bufferSize()\<close> answers 4096, not 2048.
\<close>

theorem C9_failed_start_counterexample:
  "\<not> m_running PitchDetector_new \<and>
   fst (start PitchDetector_new OpenFailed 4096 (1 / 2)) = False \<and>
   m_analysisFrameCount PitchDetector_new = 2048 \<and>
   m_analysisFrameCount (snd (start PitchDetector_new OpenFailed 4096 (1 / 2))) = 4096 \<and>
   m_hopFrameCount PitchDetector_new = 1024 \<and>
   m_hopFrameCount (snd (start PitchDetector_new OpenFailed 4096 (1 / 2))) = 2048 \<and>
   m_threshold_pd PitchDetector_new = 15 / 100 \<and>
   m_threshold_pd (snd (start PitchDetector_new OpenFailed 4096 (1 / 2))) = 1 / 2"
  by (simp add: start_def PitchDetector_new_def Let_def std_clamp_def)

text \<open>
  Claim C9, as amended. When \<^verbatim>\<open>start\<close> is called on a stopped controller and the stream
  cannot be opened or cannot be started, \<^verbatim>\<open>start\<close> returns false, the controller stays
  stopped and holds no stream, and the buffer size, the hop and the threshold are the clamped
  values of the failed call. When the stream cannot be opened, the estimator, the accumulator,
  its fill count and the sample rate are those from before the call.
\<close>

theorem C9_failed_start:
  assumes "\<not> m_running pd" and "\<forall>rate. outcome \<noteq> Started rate"
  shows "fst (start pd outcome bufferSize threshold) = False \<and>
    \<not> m_running (snd (start pd outcome bufferSize threshold)) \<and>
    \<not> m_stream (snd (start pd outcome bufferSize threshold)) \<and>
    m_analysisFrameCount (snd (start pd outcome bufferSize threshold)) = max 256 bufferSize \<and>
    m_hopFrameCount (snd (start pd outcome bufferSize threshold)) = max (max 256 bufferSize div 2) 1 \<and>
    m_threshold_pd (snd (start pd outcome bufferSize threshold)) =
      std_clamp threshold (1 / 1000) (999 / 1000) \<and>
    (outcome = OpenFailed \<longrightarrow>
       m_detector (snd (start pd outcome bufferSize threshold)) = m_detector pd \<and>
       m_accumulator (snd (start pd outcome bufferSize threshold)) = m_accumulator pd \<and>
       m_accumulatorSize (snd (start pd outcome bufferSize threshold)) = m_accumulatorSize pd \<and>
       m_sampleRate_pd (snd (start pd outcome bufferSize threshold)) = m_sampleRate_pd pd)"
proof (cases outcome)
  case OpenFailed
  then show ?thesis
    using assms(1) by (simp add: start_def Let_def)
next
  case (StartFailed rate)
  then show ?thesis
    using assms(1) by (simp add: start_def Let_def)
next
  case (Started rate)
  then show ?thesis
    using assms(2) by simp
qed

theorem C9_failed_start_witness:
  "\<not> m_running PitchDetector_new \<and>
   fst (start PitchDetector_new OpenFailed 4096 (1 / 2)) = False \<and>
   \<not> m_running (snd (start PitchDetector_new OpenFailed 4096 (1 / 2))) \<and>
   m_analysisFrameCount (snd (start PitchDetector_new OpenFailed 4096 (1 / 2))) = 4096 \<and>
   m_detector (snd (start PitchDetector_new OpenFailed 4096 (1 / 2))) = None \<and>
   m_accumulator (snd (start PitchDetector_new OpenFailed 4096 (1 / 2))) = replicate 2048 0"
proof -
  have a: "\<not> m_running PitchDetector_new"
    by (simp add: PitchDetector_new_def)
  have b: "\<forall>rate. OpenFailed \<noteq> Started rate"
    by simp
  note th = C9_failed_start [OF a b, of 4096 "1 / 2"]
  have c: "fst (start PitchDetector_new OpenFailed 4096 (1 / 2)) = False"
    by (rule th [THEN conjunct1])
  have d: "\<not> m_running (snd (start PitchDetector_new OpenFailed 4096 (1 / 2)))"
    by (rule th [THEN conjunct2, THEN conjunct1])
  have "m_analysisFrameCount (snd (start PitchDetector_new OpenFailed 4096 (1 / 2))) = max 256 4096"
    by (rule th [THEN conjunct2, THEN conjunct2, THEN conjunct2, THEN conjunct1])
  then have e: "m_analysisFrameCount (snd (start PitchDetector_new OpenFailed 4096 (1 / 2))) = 4096"
    by simp
  note same = th [THEN conjunct2, THEN conjunct2, THEN conjunct2, THEN conjunct2, THEN conjunct2,
      THEN conjunct2, rule_format, OF refl]
  have f: "m_detector (snd (start PitchDetector_new OpenFailed 4096 (1 / 2))) = None"
    using same [THEN conjunct1] by (simp add: PitchDetector_new_def)
  have g: "m_accumulator (snd (start PitchDetector_new OpenFailed 4096 (1 / 2))) = replicate 2048 0"
    using same [THEN conjunct2, THEN conjunct1] by (simp add: PitchDetector_new_def)
  from a c d e f g show ?thesis
    by (intro conjI)
qed

end
